theory Spec2Isabelle
  imports Complex_Main "HOL-Library.AList" "HOL-Library.Multiset"
begin

section \<open>The circuit cache of qiskit\_aqua/utils/circuit\_cache.py\<close>

text \<open>
  The module keeps compiled jobs (qobjs) and, per job, one index mapping per circuit in
  process-wide globals. \<open>cache_circuit\<close> stores a compiled job and derives the mappings,
  \<open>load_qobj_from_cache\<close> rewrites the parameters of a cached job from new circuits.
  The globals become one record that every operation takes and returns; every Python
  exception becomes a value of \<open>error\<close>, returned together with the state the globals
  are in when the exception leaves the function. The files that the module reads and
  writes are part of that record.

  Python objects are modelled by their values. Two places of the module store an object
  a second time without copying it: \<open>mappings.insert(chunk, mappings[0])\<close> and
  \<open>mappings[0].insert(circ_num, mappings[0][0])\<close>. The inner lists are never changed
  once stored; the list \<open>mappings[0]\<close> is changed only by a call for chunk 0, which reads
  no other entry of \<open>mappings\<close>. So within one call the values computed here are those of
  the program, and every property below is about one call from an arbitrary state. The
  jobs are stored as deep copies throughout; in naughty mode the job handed out shares its
  experiments with the cache, which shows in no value at the time of the return.
\<close>

subsection \<open>Errors\<close>

datatype error =
    ShapeMismatchQobj string
      \<comment> \<open>\<open>Exception("Circuit shape does not match qobj, found extra {} instruction in qobj")\<close>\<close>
  | ShapeMismatchCircuit string
      \<comment> \<open>\<open>Exception("Circuit shape does not match qobj, found extra {} in circuit")\<close>\<close>
  | AquaError nat string nat nat string nat
      \<comment> \<open>the gate mismatch of the patch loop, with the six values of its message\<close>
  | KeyError string
  | IndexError
  | AttributeError
  | TypeError
  | FileNotFoundError
  | UnpicklingError
  | OSError

subsection \<open>Circuits and compiled jobs\<close>

datatype reg_class = QuantumRegister | ClassicalRegister

record register =
  reg_name :: string
  reg_size :: int
  reg_class :: reg_class

text \<open>
  A gate of the input circuit has a name, arguments \<open>(register, index)\<close> and parameters;
  a \<open>CompositeGate\<close> also holds the gates it is made of.
\<close>

datatype gate =
    Gate (gate_name: string) (arg: "(register \<times> int) list") (param: "real list")
  | CompositeGate (gate_name: string) (arg: "(register \<times> int) list") (param: "real list")
      (gate_data: "gate list")

record circuit =
  circ_name :: string
  regs :: "(string \<times> register) list"
  data :: "gate list"

text \<open>
  An instruction of a compiled experiment. The attribute \<open>params\<close> may be absent
  (a measure has none), hence the option.
\<close>

record instruction =
  instr_name :: string
  qubits :: "int list"
  params :: "real list option"

record experiment_header =
  header_name :: string
  compiled_circuit_qasm :: "string option"

record qobj_experiment =
  header :: experiment_header
  instructions :: "instruction list"

record qobj =
  qobj_id :: string
  experiments :: "qobj_experiment list"

subsection \<open>The module's globals and the file system\<close>

text \<open>
  What \<open>pickle.load\<close> finds in a file: bytes that do not unpickle, or a dictionary
  whose keys \<open>'qobjs'\<close> and \<open>'mappings'\<close> may each be missing.
\<close>

datatype pickled =
    Garbage
  | Pickled "qobj list option" "nat list list list option"

record cache =
  qobjs :: "qobj list option"
  mappings :: "nat list list list option"
  misses :: "int option"
  try_reusing_qobjs :: bool
  naughty_mode :: bool
  cache_file :: "string option"
  disk :: "string \<Rightarrow> pickled option"
  writable :: "string \<Rightarrow> bool"

text \<open>The state of a freshly imported module, on a disk without files.\<close>

definition initial_cache :: cache where
  "initial_cache =
     \<lparr>qobjs = None, mappings = None, misses = Some 0, try_reusing_qobjs = True,
      naughty_mode = False, cache_file = None, disk = (\<lambda>f. None), writable = (\<lambda>f. True)\<rparr>"

subsection \<open>Python helpers\<close>

text \<open>\<open>xs.insert(i, x)\<close> for \<open>i \<ge> 0\<close>: beyond the end it appends.\<close>

definition list_insert :: "nat \<Rightarrow> 'a \<Rightarrow> 'a list \<Rightarrow> 'a list" where
  "list_insert i x xs = take i xs @ x # drop i xs"

text \<open>\<open>copy.deepcopy\<close> yields an equal value that shares nothing with its argument.\<close>

definition deepcopy :: "'a \<Rightarrow> 'a" where
  "deepcopy x = x"

text \<open>\<open>str\<close> of an integer and of a list of integers, as in \<open>[0, 12, -3]\<close>.\<close>

definition digit_char :: "nat \<Rightarrow> char" where
  "digit_char d = ''0123456789'' ! d"

fun str_nat :: "nat \<Rightarrow> string" where
  "str_nat n = (if n < 10 then [digit_char n] else str_nat (n div 10) @ [digit_char (n mod 10)])"

declare str_nat.simps [simp del]

definition str_int :: "int \<Rightarrow> string" where
  "str_int i = (if i < 0 then CHR ''-'' # str_nat (nat (- i)) else str_nat (nat i))"

fun join :: "string \<Rightarrow> string list \<Rightarrow> string" where
  "join sep [] = []"
| "join sep [x] = x"
| "join sep (x # y # ys) = x @ sep @ join sep (y # ys)"

definition str_list :: "int list \<Rightarrow> string" where
  "str_list qs = CHR ''['' # join '', '' (map str_int qs) @ '']''"

subsection \<open>The signature matcher of \<open>cache_circuit\<close>\<close>

text \<open>
  The unrolling loop: a composite gate contributes \<open>gate.instruction_list()\<close>, any other
  gate itself. \<open>instruction_list\<close> is qiskit's: it returns the gates of the composite
  gate in order, calling itself on those that are composite again.
\<close>

fun unroll_gate :: "gate \<Rightarrow> gate list" where
  "unroll_gate (Gate n a p) = [Gate n a p]"
| "unroll_gate (CompositeGate n a p gs) = concat (map unroll_gate gs)"

definition raw_gates :: "circuit \<Rightarrow> gate list" where
  "raw_gates input_circuit = concat (map unroll_gate (data input_circuit))"

definition qreg_sizes :: "circuit \<Rightarrow> int list" where
  "qreg_sizes input_circuit =
     map reg_size (filter (\<lambda>reg. reg_class reg = QuantumRegister) (map snd (regs input_circuit)))"

definition qreg_indeces :: "circuit \<Rightarrow> string \<Rightarrow> int option" where
  "qreg_indeces input_circuit =
     fold (\<lambda>(i, name) m. m(name \<mapsto> sum_list (take i (qreg_sizes input_circuit))))
       (enumerate 0 (map fst (regs input_circuit))) Map.empty"

text \<open>
  \<open>[qubit + qreg_indeces[reg.name] for reg, qubit in regs if isinstance(reg, QuantumRegister)]\<close>:
  a register name missing from the dictionary raises \<open>KeyError\<close>.
\<close>

fun resolve_qubits :: "(string \<Rightarrow> int option) \<Rightarrow> (register \<times> int) list \<Rightarrow> error + int list" where
  "resolve_qubits idx [] = Inr []"
| "resolve_qubits idx ((reg, qubit) # rest) =
     (if reg_class reg = QuantumRegister then
        (case idx (reg_name reg) of
           None \<Rightarrow> Inl (KeyError (reg_name reg))
         | Some off \<Rightarrow>
             (case resolve_qubits idx rest of
                Inl e \<Rightarrow> Inl e
              | Inr qs \<Rightarrow> Inr ((qubit + off) # qs)))
      else resolve_qubits idx rest)"

definition type_and_qubits :: "string \<Rightarrow> int list \<Rightarrow> string" where
  "type_and_qubits gate_type qs = gate_type @ str_list qs"

text \<open>
  \<open>op_graph\<close> is a dictionary from signature strings to lists of gate indices; an
  association list keeps the insertion order that the final scan of its items follows.
  \<open>op_graph.get(k, [])\<close> is \<open>graph_get\<close>.
\<close>

type_synonym op_graph = "(string \<times> nat list) list"

definition graph_get :: "op_graph \<Rightarrow> string \<Rightarrow> nat list" where
  "graph_get g k = (case map_of g k of None \<Rightarrow> [] | Some ops \<Rightarrow> ops)"

fun build_op_graph :: "(string \<Rightarrow> int option) \<Rightarrow> gate list \<Rightarrow> nat \<Rightarrow> op_graph \<Rightarrow> error + op_graph" where
  "build_op_graph idx [] i g = Inr g"
| "build_op_graph idx (uncompiled_gate # rest) i g =
     (case resolve_qubits idx (arg uncompiled_gate) of
        Inl e \<Rightarrow> Inl e
      | Inr qs \<Rightarrow>
          (let k = type_and_qubits (gate_name uncompiled_gate) qs
           in build_op_graph idx rest (Suc i) (AList.update k (graph_get g k @ [i]) g)))"

text \<open>
  The loop over the compiled instructions: \<open>op_graph[k]\<close> raises \<open>KeyError\<close> for a
  signature that is no key; an empty queue raises the shape exception; otherwise the front
  index is popped and, when names and qubit strings agree, inserted into the mapping at the
  index of the compiled instruction.
\<close>

fun match_gates ::
  "(string \<Rightarrow> int option) \<Rightarrow> gate list \<Rightarrow> instruction list \<Rightarrow> nat \<Rightarrow> op_graph \<Rightarrow> nat list
     \<Rightarrow> error + (op_graph \<times> nat list)" where
  "match_gates idx raw [] j g mapping = Inr (g, mapping)"
| "match_gates idx raw (compiled_gate # rest) j g mapping =
     (let k = type_and_qubits (instr_name compiled_gate) (qubits compiled_gate) in
      case map_of g k of
        None \<Rightarrow> Inl (KeyError k)
      | Some [] \<Rightarrow> Inl (ShapeMismatchQobj k)
      | Some (uncompiled_gate_index # ops) \<Rightarrow>
          (if length raw \<le> uncompiled_gate_index then Inl IndexError
           else
             (case resolve_qubits idx (arg (raw ! uncompiled_gate_index)) of
                Inl e \<Rightarrow> Inl e
              | Inr qs \<Rightarrow>
                  match_gates idx raw rest (Suc j) (AList.update k ops g)
                    (if instr_name compiled_gate = gate_name (raw ! uncompiled_gate_index)
                        \<and> str_list (qubits compiled_gate) = str_list qs
                     then list_insert j uncompiled_gate_index mapping
                     else mapping))))"

text \<open>The scan of \<open>op_graph.items()\<close> for a queue that is not empty.\<close>

fun leftover :: "op_graph \<Rightarrow> error option" where
  "leftover [] = None"
| "leftover ((k, ops) # g) =
     (if length ops > 0 then Some (ShapeMismatchCircuit k) else leftover g)"

text \<open>
  Lines 91 to 121 for one circuit: the queues, then the mapping, read from the
  \<open>qobj\<close> that was passed in.
\<close>

definition circuit_mapping :: "circuit \<Rightarrow> qobj \<Rightarrow> nat \<Rightarrow> error + (op_graph \<times> nat list)" where
  "circuit_mapping input_circuit qobj circ_num =
     (case build_op_graph (qreg_indeces input_circuit) (raw_gates input_circuit) 0 [] of
        Inl e \<Rightarrow> Inl e
      | Inr g \<Rightarrow>
          (if length (experiments qobj) \<le> circ_num then Inl IndexError
           else match_gates (qreg_indeces input_circuit) (raw_gates input_circuit)
                  (instructions (experiments qobj ! circ_num)) 0 g []))"

subsection \<open>\<open>cache_circuit\<close>\<close>

text \<open>\<open>del qobjs[chunk].experiments[circ_num].header.compiled_circuit_qasm\<close>\<close>

definition del_qasm :: "nat \<Rightarrow> nat \<Rightarrow> qobj list \<Rightarrow> error + qobj list" where
  "del_qasm chunk circ_num qs =
     (if length qs \<le> chunk then Inl IndexError
      else if length (experiments (qs ! chunk)) \<le> circ_num then Inl IndexError
      else
        (let q = qs ! chunk; e = experiments q ! circ_num in
         case compiled_circuit_qasm (header e) of
           None \<Rightarrow> Inl AttributeError
         | Some qasm \<Rightarrow>
             Inr (qs[chunk := q\<lparr>experiments :=
                    (experiments q)[circ_num := e\<lparr>header := (header e)\<lparr>compiled_circuit_qasm := None\<rparr>\<rparr>]\<rparr>])))"

text \<open>\<open>mappings[chunk][circ_num] = mapping\<close>\<close>

definition store_mapping :: "nat \<Rightarrow> nat \<Rightarrow> nat list \<Rightarrow> nat list list list \<Rightarrow> error + nat list list list" where
  "store_mapping chunk circ_num mapping ms =
     (if length ms \<le> chunk then Inl IndexError
      else if length (ms ! chunk) \<le> circ_num then Inl IndexError
      else Inr (ms[chunk := (ms ! chunk)[circ_num := mapping]]))"

text \<open>
  The loop over the circuits. An exception leaves the lists as they are at that moment:
  the mapping of a circuit is stored before its leftover queues are looked at.
\<close>

fun cache_circuits ::
  "qobj \<Rightarrow> circuit list \<Rightarrow> nat \<Rightarrow> nat \<Rightarrow> qobj list \<times> nat list list list
     \<Rightarrow> error option \<times> (qobj list \<times> nat list list list)" where
  "cache_circuits qobj [] chunk circ_num (qs, ms) = (None, (qs, ms))"
| "cache_circuits qobj (input_circuit # rest) chunk circ_num (qs, ms) =
     (case del_qasm chunk circ_num qs of
        Inl e \<Rightarrow> (Some e, (qs, ms))
      | Inr qs1 \<Rightarrow>
          (case circuit_mapping input_circuit qobj circ_num of
             Inl e \<Rightarrow> (Some e, (qs1, ms))
           | Inr (g, mapping) \<Rightarrow>
               (case store_mapping chunk circ_num mapping ms of
                  Inl e \<Rightarrow> (Some e, (qs1, ms))
                | Inr ms1 \<Rightarrow>
                    (case leftover g of
                       Some e \<Rightarrow> (Some e, (qs1, ms1))
                     | None \<Rightarrow> cache_circuits qobj rest chunk (Suc circ_num) (qs1, ms1)))))"

text \<open>The pickle written when a cache file is configured.\<close>

definition save_cache :: "cache \<Rightarrow> error option \<times> cache" where
  "save_cache s =
     (case cache_file s of
        None \<Rightarrow> (None, s)
      | Some f \<Rightarrow>
          (if length f > 0 then
             (if writable s f
              then (None, s\<lparr>disk := (disk s)(f \<mapsto> Pickled (qobjs s) (mappings s))\<rparr>)
              else (Some OSError, s))
           else (None, s)))"

definition cache_circuit :: "qobj \<Rightarrow> circuit list \<Rightarrow> nat \<Rightarrow> cache \<Rightarrow> error option \<times> cache" where
  "cache_circuit qobj circuits chunk s =
     (let qs = (case qobjs s of None \<Rightarrow> [] | Some qs \<Rightarrow> qs);
          ms = (case mappings s of None \<Rightarrow> [] | Some ms \<Rightarrow> ms);
          mi = (case misses s of None \<Rightarrow> 0 | Some n \<Rightarrow> n);
          qs1 = list_insert chunk (deepcopy qobj) qs;
          ms1 = list_insert chunk (replicate (length circuits) []) ms;
          (err, (qs2, ms2)) = cache_circuits qobj circuits chunk 0 (qs1, ms1);
          s2 = s\<lparr>qobjs := Some qs2, mappings := Some ms2, misses := Some mi\<rparr>
      in case err of
           Some e \<Rightarrow> (Some e, s2)
         | None \<Rightarrow> save_cache s2)"

subsection \<open>\<open>try_loading_cache_from_file\<close>\<close>

text \<open>
  \<open>open\<close> raises for a missing file, \<open>pickle.load\<close> for bytes that do not unpickle,
  \<open>cache['qobjs']\<close> and \<open>cache['mappings']\<close> for a missing key; \<open>qobjs\<close> is assigned
  before \<open>cache['mappings']\<close> is read. Nothing here catches an exception.
\<close>

definition try_loading_cache_from_file :: "cache \<Rightarrow> error option \<times> cache" where
  "try_loading_cache_from_file s =
     (case cache_file s of
        None \<Rightarrow> (None, s)
      | Some f \<Rightarrow>
          (if qobjs s = None \<and> length f > 0 then
             (case disk s f of
                None \<Rightarrow> (Some FileNotFoundError, s)
              | Some Garbage \<Rightarrow> (Some UnpicklingError, s)
              | Some (Pickled None ms) \<Rightarrow> (Some (KeyError ''qobjs''), s)
              | Some (Pickled (Some qs) None) \<Rightarrow> (Some (KeyError ''mappings''), s\<lparr>qobjs := Some qs\<rparr>)
              | Some (Pickled (Some qs) (Some ms)) \<Rightarrow> (None, s\<lparr>qobjs := Some qs, mappings := Some ms\<rparr>))
           else (None, s)))"

subsection \<open>\<open>load_qobj_from_cache\<close>\<close>

text \<open>
  Lines 154 to 156: a chunk beyond the cached ones is filled from chunk 0.
  \<open>mappings.insert\<close> runs first, so a failing \<open>qobjs[0]\<close> leaves \<open>mappings\<close> longer.
\<close>

definition reuse_chunk :: "nat \<Rightarrow> cache \<Rightarrow> error option \<times> cache" where
  "reuse_chunk chunk s =
     (case qobjs s of
        None \<Rightarrow> (None, s)
      | Some qs \<Rightarrow>
          (if try_reusing_qobjs s \<and> length qs \<le> chunk then
             (case mappings s of
                None \<Rightarrow> (Some AttributeError, s)
              | Some ms \<Rightarrow>
                  (if ms = [] then (Some IndexError, s)
                   else
                     (let s1 = s\<lparr>mappings := Some (list_insert chunk (ms ! 0) ms)\<rparr> in
                      if qs = [] then (Some IndexError, s1)
                      else (None, s1\<lparr>qobjs := Some (list_insert chunk (deepcopy (qs ! 0)) qs)\<rparr>))))
           else (None, s)))"

text \<open>
  Lines 162 to 164: in chunk 0, an experiment beyond the cached ones is filled from
  experiment 0, and its mapping from mapping 0.
\<close>

definition reuse_experiment :: "nat \<Rightarrow> nat \<Rightarrow> cache \<Rightarrow> error option \<times> cache" where
  "reuse_experiment chunk circ_num s =
     (if try_reusing_qobjs s \<and> chunk = 0 \<and> circ_num > 0 then
        (case qobjs s of
           None \<Rightarrow> (Some TypeError, s)
         | Some qs \<Rightarrow>
             (if length qs \<le> chunk then (Some IndexError, s)
              else if length (experiments (qs ! chunk)) \<le> circ_num then
                (if experiments (qs ! 0) = [] then (Some IndexError, s)
                 else
                   (let q0 = qs ! 0;
                        s1 = s\<lparr>qobjs := Some (qs[0 := q0\<lparr>experiments :=
                               list_insert circ_num (deepcopy (experiments q0 ! 0)) (experiments q0)\<rparr>])\<rparr>
                    in case mappings s1 of
                         None \<Rightarrow> (Some TypeError, s1)
                       | Some ms \<Rightarrow>
                           (if ms = [] then (Some IndexError, s1)
                            else if ms ! 0 = [] then (Some IndexError, s1)
                            else (None, s1\<lparr>mappings :=
                                    Some (ms[0 := list_insert circ_num (ms ! 0 ! 0) (ms ! 0)])\<rparr>))))
              else (None, s)))
      else (None, s))"

text \<open>\<open>mappings[chunk][circ_num][gate_num]\<close>\<close>

definition mapping_at :: "nat list list list option \<Rightarrow> nat \<Rightarrow> nat \<Rightarrow> nat \<Rightarrow> error + nat" where
  "mapping_at ms chunk circ_num gate_num =
     (case ms of
        None \<Rightarrow> Inl TypeError
      | Some m \<Rightarrow>
          (if length m \<le> chunk then Inl IndexError
           else if length (m ! chunk) \<le> circ_num then Inl IndexError
           else if length (m ! chunk ! circ_num) \<le> gate_num then Inl IndexError
           else Inr (m ! chunk ! circ_num ! gate_num)))"

text \<open>
  \<open>np.array(param, dtype=float).tolist()\<close>: the parameters as a list of floats of the
  same length. Parameters are real numbers here, so the conversion changes nothing.
\<close>

definition float_list :: "real list \<Rightarrow> real list" where
  "float_list ps = ps"

text \<open>\<open>len(getattr(compiled_gate, 'params', []))\<close>\<close>

definition params_len :: "instruction \<Rightarrow> nat" where
  "params_len compiled_gate = (case params compiled_gate of None \<Rightarrow> 0 | Some ps \<Rightarrow> length ps)"

text \<open>
  The loop over the instructions of one cached experiment (lines 172 to 184). The
  instructions are rewritten in place, so the list returned with an error holds the
  instructions rewritten before the failing one. The message of the \<open>AquaError\<close> reads
  \<open>compiled_gate.params\<close> without \<open>getattr\<close>: where the attribute is absent, building
  the message raises \<open>AttributeError\<close>.
\<close>

fun patch_gates ::
  "nat list list list option \<Rightarrow> nat \<Rightarrow> nat \<Rightarrow> gate list \<Rightarrow> nat \<Rightarrow> instruction list
     \<Rightarrow> error option \<times> instruction list" where
  "patch_gates ms chunk circ_num raw gate_num [] = (None, [])"
| "patch_gates ms chunk circ_num raw gate_num (compiled_gate # rest) =
     (if instr_name compiled_gate = ''snapshot'' then
        (let (err, rest') = patch_gates ms chunk circ_num raw (Suc gate_num) rest
         in (err, compiled_gate # rest'))
      else
        (case mapping_at ms chunk circ_num gate_num of
           Inl e \<Rightarrow> (Some e, compiled_gate # rest)
         | Inr cache_index \<Rightarrow>
             (if length raw \<le> cache_index then (Some IndexError, compiled_gate # rest)
              else
                (let uncompiled_gate = raw ! cache_index in
                 if params_len compiled_gate \<noteq> length (param uncompiled_gate)
                    \<or> instr_name compiled_gate \<noteq> gate_name uncompiled_gate
                 then
                   (case params compiled_gate of
                      None \<Rightarrow> (Some AttributeError, compiled_gate # rest)
                    | Some ps \<Rightarrow>
                        (Some (AquaError cache_index (gate_name uncompiled_gate)
                                 (length (param uncompiled_gate)) gate_num
                                 (instr_name compiled_gate) (length ps)),
                         compiled_gate # rest))
                 else
                   (let (err, rest') = patch_gates ms chunk circ_num raw (Suc gate_num) rest
                    in (err, compiled_gate\<lparr>params := Some (float_list (param uncompiled_gate))\<rparr> # rest'))))))"

text \<open>
  Lines 166 to 184 for one circuit: the header of the cached experiment takes the
  circuit's name, then its instructions are rewritten.
\<close>

definition patch_experiment :: "circuit \<Rightarrow> nat \<Rightarrow> nat \<Rightarrow> cache \<Rightarrow> error option \<times> cache" where
  "patch_experiment input_circuit chunk circ_num s =
     (case qobjs s of
        None \<Rightarrow> (Some TypeError, s)
      | Some qs \<Rightarrow>
          (if length qs \<le> chunk then (Some IndexError, s)
           else if length (experiments (qs ! chunk)) \<le> circ_num then (Some IndexError, s)
           else
             (let q = qs ! chunk;
                  e = experiments q ! circ_num;
                  e1 = e\<lparr>header := (header e)\<lparr>header_name := circ_name input_circuit\<rparr>\<rparr>;
                  (err, ins) = patch_gates (mappings s) chunk circ_num (raw_gates input_circuit) 0
                                 (instructions e1)
              in (err, s\<lparr>qobjs := Some (qs[chunk := q\<lparr>experiments :=
                            (experiments q)[circ_num := e1\<lparr>instructions := ins\<rparr>]\<rparr>])\<rparr>))))"

fun load_circuits :: "circuit list \<Rightarrow> nat \<Rightarrow> nat \<Rightarrow> cache \<Rightarrow> error option \<times> cache" where
  "load_circuits [] chunk circ_num s = (None, s)"
| "load_circuits (input_circuit # rest) chunk circ_num s =
     (case reuse_experiment chunk circ_num s of
        (Some e, s1) \<Rightarrow> (Some e, s1)
      | (None, s1) \<Rightarrow>
          (case patch_experiment input_circuit chunk circ_num s1 of
             (Some e, s2) \<Rightarrow> (Some e, s2)
           | (None, s2) \<Rightarrow> load_circuits rest chunk (Suc circ_num) s2))"

text \<open>
  Lines 185 to 188. The job handed out is a shallow copy of the cached one whose
  experiments are the first \<open>len(circuits)\<close> cached experiments, deep-copied unless
  \<open>naughty_mode\<close> is set; the copy is taken after the cached experiments were rewritten.
\<close>

definition exec_qobj :: "circuit list \<Rightarrow> nat \<Rightarrow> cache \<Rightarrow> error + qobj" where
  "exec_qobj circuits chunk s =
     (case qobjs s of
        None \<Rightarrow> Inl TypeError
      | Some qs \<Rightarrow>
          (if length qs \<le> chunk then Inl IndexError
           else
             Inr ((qs ! chunk)\<lparr>experiments :=
                    (if naughty_mode s then take (length circuits) (experiments (qs ! chunk))
                     else deepcopy (take (length circuits) (experiments (qs ! chunk))))\<rparr>)))"

definition load_qobj_from_cache :: "circuit list \<Rightarrow> nat \<Rightarrow> cache \<Rightarrow> (error + qobj) \<times> cache" where
  "load_qobj_from_cache circuits chunk s =
     (case try_loading_cache_from_file s of
        (Some e, s1) \<Rightarrow> (Inl e, s1)
      | (None, s1) \<Rightarrow>
          (case reuse_chunk chunk s1 of
             (Some e, s2) \<Rightarrow> (Inl e, s2)
           | (None, s2) \<Rightarrow>
               (case load_circuits circuits chunk 0 s2 of
                  (Some e, s3) \<Rightarrow> (Inl e, s3)
                | (None, s3) \<Rightarrow> (exec_qobj circuits chunk s3, s3))))"

subsection \<open>\<open>clear_cache\<close>\<close>

definition clear_cache :: "cache \<Rightarrow> cache" where
  "clear_cache s = s\<lparr>qobjs := None, mappings := None, misses := Some 0, try_reusing_qobjs := True\<rparr>"

subsection \<open>Notions used to state the properties\<close>

text \<open>The characters that \<open>str\<close> of an integer is made of.\<close>

definition num_char :: "char \<Rightarrow> bool" where
  "num_char c = (c \<in> set ''-0123456789'')"

text \<open>
  The signature string of a gate of the circuit (when its qubits resolve) and of a
  compiled instruction, as the two loops of \<open>cache_circuit\<close> compute them.
\<close>

definition gate_key :: "(string \<Rightarrow> int option) \<Rightarrow> gate \<Rightarrow> error + string" where
  "gate_key idx u =
     (case resolve_qubits idx (arg u) of
        Inl e \<Rightarrow> Inl e
      | Inr qs \<Rightarrow> Inr (type_and_qubits (gate_name u) qs))"

definition instr_key :: "instruction \<Rightarrow> string" where
  "instr_key c = type_and_qubits (instr_name c) (qubits c)"

text \<open>The indices of the gates with signature \<open>k\<close>, in the order of the circuit.\<close>

definition source_indices :: "(string \<Rightarrow> int option) \<Rightarrow> gate list \<Rightarrow> string \<Rightarrow> nat list" where
  "source_indices idx raw k = filter (\<lambda>i. gate_key idx (raw ! i) = Inr k) [0..<length raw]"

text \<open>How many instructions before position \<open>p\<close> carry the signature of instruction \<open>p\<close>.\<close>

definition rank :: "instruction list \<Rightarrow> nat \<Rightarrow> nat" where
  "rank cs p = length (filter (\<lambda>c. instr_key c = instr_key (cs ! p)) (take p cs))"

text \<open>Every queued index is an index of a gate with the signature of its queue.\<close>

definition graph_ok :: "(string \<Rightarrow> int option) \<Rightarrow> gate list \<Rightarrow> op_graph \<Rightarrow> bool" where
  "graph_ok idx raw g =
     (\<forall>k. \<forall>i\<in>set (graph_get g k). i < length raw \<and> gate_key idx (raw ! i) = Inr k)"

text \<open>The indices still queued, as a multiset.\<close>

definition pending :: "op_graph \<Rightarrow> nat multiset" where
  "pending g = sum_list (map (\<lambda>(k, ops). mset ops) g)"

text \<open>A gate that carries parameters.\<close>

definition parameterized :: "gate \<Rightarrow> bool" where
  "parameterized u = (param u \<noteq> [])"

text \<open>The cached jobs and mappings as lists: none before the first insert.\<close>

definition chunks :: "cache \<Rightarrow> qobj list" where
  "chunks s = (case qobjs s of None \<Rightarrow> [] | Some qs \<Rightarrow> qs)"

definition chunk_mappings :: "cache \<Rightarrow> nat list list list" where
  "chunk_mappings s = (case mappings s of None \<Rightarrow> [] | Some ms \<Rightarrow> ms)"

text \<open>
  What rewriting parameters may do to a cached job: an instruction keeps its name and its
  qubits, and a \<open>snapshot\<close> instruction stays as it is; an experiment keeps its
  instructions up to that; a job keeps its experiments up to that and may gain experiments
  at the end; the list of jobs keeps every job other than \<open>chunk\<close> as it is and may gain
  jobs at the end.
\<close>

definition instr_patched :: "instruction \<Rightarrow> instruction \<Rightarrow> bool" where
  "instr_patched a b =
     (instr_name b = instr_name a \<and> qubits b = qubits a \<and> (instr_name a = ''snapshot'' \<longrightarrow> b = a))"

definition experiment_patched :: "qobj_experiment \<Rightarrow> qobj_experiment \<Rightarrow> bool" where
  "experiment_patched e e' =
     (compiled_circuit_qasm (header e') = compiled_circuit_qasm (header e)
      \<and> list_all2 instr_patched (instructions e) (instructions e'))"

definition job_patched :: "qobj \<Rightarrow> qobj \<Rightarrow> bool" where
  "job_patched q q' =
     (qobj_id q' = qobj_id q \<and> length (experiments q) \<le> length (experiments q')
      \<and> (\<forall>e<length (experiments q). experiment_patched (experiments q ! e) (experiments q' ! e)))"

definition cache_patched :: "nat \<Rightarrow> qobj list \<Rightarrow> qobj list \<Rightarrow> bool" where
  "cache_patched chunk qs qs' =
     (length qs \<le> length qs'
      \<and> (\<forall>c<length qs. (c \<noteq> chunk \<longrightarrow> qs' ! c = qs ! c) \<and> job_patched (qs ! c) (qs' ! c)))"

text \<open>
  The cached experiment that the loop of \<open>load_qobj_from_cache\<close> patches for circuit
  number \<open>circ_num\<close>: \<open>qobjs[chunk].experiments[circ_num]\<close>.
\<close>

definition slot :: "cache \<Rightarrow> nat \<Rightarrow> nat \<Rightarrow> qobj_experiment" where
  "slot s chunk circ_num = experiments (chunks s ! chunk) ! circ_num"

text \<open>
  What the loop asks of an instruction that is not a \<open>snapshot\<close> before it rewrites it
  (lines 174 to 178): the mapping has an index for it, the index is a gate of the circuit,
  and the parameter count and the name of that gate are those of the instruction.
\<close>

definition patchable ::
  "nat list list list option \<Rightarrow> nat \<Rightarrow> nat \<Rightarrow> gate list \<Rightarrow> nat \<Rightarrow> instruction \<Rightarrow> bool" where
  "patchable ms chunk circ_num raw gate_num compiled_gate =
     (case mapping_at ms chunk circ_num gate_num of
        Inl e \<Rightarrow> False
      | Inr cache_index \<Rightarrow>
          cache_index < length raw
          \<and> params_len compiled_gate = length (param (raw ! cache_index))
          \<and> instr_name compiled_gate = gate_name (raw ! cache_index))"

text \<open>
  What the loop leaves in an instruction it has passed: a \<open>snapshot\<close> is skipped, any
  other instruction has the name of its mapped gate and carries that gate's parameters.
\<close>

definition instr_written ::
  "nat list list list option \<Rightarrow> nat \<Rightarrow> nat \<Rightarrow> gate list \<Rightarrow> nat \<Rightarrow> instruction \<Rightarrow> bool" where
  "instr_written ms chunk circ_num raw gate_num compiled_gate =
     (instr_name compiled_gate = ''snapshot''
      \<or> (case mapping_at ms chunk circ_num gate_num of
            Inl e \<Rightarrow> False
          | Inr cache_index \<Rightarrow>
              cache_index < length raw
              \<and> instr_name compiled_gate = gate_name (raw ! cache_index)
              \<and> params compiled_gate = Some (float_list (param (raw ! cache_index)))))"

text \<open>
  Cached experiment \<open>circ_num\<close> of \<open>chunk\<close> holds circuit \<open>c\<close>: its header carries the
  name of the circuit and every instruction is as the loop leaves it for this circuit.
\<close>

definition holds_circuit :: "circuit \<Rightarrow> nat \<Rightarrow> nat \<Rightarrow> cache \<Rightarrow> bool" where
  "holds_circuit c chunk circ_num s =
     (chunk < length (chunks s) \<and> circ_num < length (experiments (chunks s ! chunk))
      \<and> header_name (header (slot s chunk circ_num)) = circ_name c
      \<and> (\<forall>g<length (instructions (slot s chunk circ_num)).
            instr_written (mappings s) chunk circ_num (raw_gates c) g
              (instructions (slot s chunk circ_num) ! g)))"

text \<open>
  The cache as the loop leaves it when it raises at instruction \<open>gate_num\<close> of circuit
  \<open>c\<close>, loaded as number \<open>circ_num\<close>: the header carries the name of the circuit, every
  earlier instruction is as the loop leaves it, and instruction \<open>gate_num\<close>, which is not
  a \<open>snapshot\<close>, is the one that cannot be patched.
\<close>

definition raised_at :: "circuit \<Rightarrow> nat \<Rightarrow> nat \<Rightarrow> nat \<Rightarrow> cache \<Rightarrow> bool" where
  "raised_at c chunk circ_num gate_num s =
     (chunk < length (chunks s) \<and> circ_num < length (experiments (chunks s ! chunk))
      \<and> gate_num < length (instructions (slot s chunk circ_num))
      \<and> header_name (header (slot s chunk circ_num)) = circ_name c
      \<and> (\<forall>g<gate_num.
            instr_written (mappings s) chunk circ_num (raw_gates c) g
              (instructions (slot s chunk circ_num) ! g))
      \<and> instr_name (instructions (slot s chunk circ_num) ! gate_num) \<noteq> ''snapshot''
      \<and> \<not> patchable (mappings s) chunk circ_num (raw_gates c) gate_num
            (instructions (slot s chunk circ_num) ! gate_num))"

text \<open>
  A partial patch in the cache: the loop raised at some instruction \<open>g'\<close> of some circuit
  \<open>n'\<close>, not later than instruction \<open>gate_num\<close> of circuit \<open>circ_num\<close>, and the cache
  holds every circuit before \<open>n'\<close> in full and circuit \<open>n'\<close> up to instruction \<open>g'\<close>.
\<close>

definition partial_patch :: "circuit list \<Rightarrow> nat \<Rightarrow> nat \<Rightarrow> nat \<Rightarrow> cache \<Rightarrow> bool" where
  "partial_patch circuits chunk circ_num gate_num s =
     (\<exists>n'\<le>circ_num. \<exists>g'<length (instructions (slot s chunk n')).
         (n' = circ_num \<longrightarrow> g' \<le> gate_num)
         \<and> (\<forall>m<n'. holds_circuit (circuits ! m) chunk m s)
         \<and> raised_at (circuits ! n') chunk n' g' s)"

subsection \<open>Example inputs\<close>

text \<open>One quantum register \<open>q\<close> of two qubits; gates on its qubits; jobs from instruction lists.\<close>

definition q_reg :: register where
  "q_reg = \<lparr>reg_name = ''q'', reg_size = 2, reg_class = QuantumRegister\<rparr>"

definition gate_on :: "string \<Rightarrow> int list \<Rightarrow> real list \<Rightarrow> gate" where
  "gate_on n qs ps = Gate n (map (\<lambda>q. (q_reg, q)) qs) ps"

definition circuit_of :: "string \<Rightarrow> gate list \<Rightarrow> circuit" where
  "circuit_of n gs = \<lparr>circ_name = n, regs = [(''q'', q_reg)], data = gs\<rparr>"

definition instr :: "string \<Rightarrow> int list \<Rightarrow> real list \<Rightarrow> instruction" where
  "instr n qs ps = \<lparr>instr_name = n, qubits = qs, params = Some ps\<rparr>"

definition experiment_of :: "string \<Rightarrow> instruction list \<Rightarrow> qobj_experiment" where
  "experiment_of n is =
     \<lparr>header = \<lparr>header_name = n, compiled_circuit_qasm = Some ''qasm''\<rparr>, instructions = is\<rparr>"

definition job_of :: "qobj_experiment list \<Rightarrow> qobj" where
  "job_of es = \<lparr>qobj_id = ''job'', experiments = es\<rparr>"

text \<open>Scenario 1: three operations, compiled in the same order.\<close>

definition scenario1_circuit :: circuit where
  "scenario1_circuit =
     circuit_of ''c'' [gate_on ''OpA'' [0] [], gate_on ''OpB'' [0, 1] [], gate_on ''OpA'' [0] []]"

definition scenario1_qobj :: qobj where
  "scenario1_qobj =
     job_of [experiment_of ''c'' [instr ''OpA'' [0] [], instr ''OpB'' [0, 1] [], instr ''OpA'' [0] []]]"

text \<open>Scenario 2: two operations, one of them missing from the compiled job.\<close>

definition scenario2_circuit :: circuit where
  "scenario2_circuit = circuit_of ''c'' [gate_on ''OpA'' [0] [], gate_on ''OpA'' [0] []]"

definition scenario2_qobj :: qobj where
  "scenario2_qobj = job_of [experiment_of ''c'' [instr ''OpA'' [0] []]]"

text \<open>
  A compiled instruction whose signature no operation of the circuit has, and one whose
  signature the circuit has once but the compiled job twice.
\<close>

definition single_circuit :: circuit where
  "single_circuit = circuit_of ''c'' [gate_on ''OpA'' [0] []]"

definition absent_qobj :: qobj where
  "absent_qobj = job_of [experiment_of ''c'' [instr ''OpB'' [0] []]]"

definition exhausted_qobj :: qobj where
  "exhausted_qobj = job_of [experiment_of ''c'' [instr ''OpA'' [0] [], instr ''OpA'' [0] []]]"

text \<open>A circuit with one gate without parameters and one gate with a parameter.\<close>

definition mixed_circuit :: circuit where
  "mixed_circuit = circuit_of ''c'' [gate_on ''h'' [0] [], gate_on ''u1'' [1] [1 / 2]]"

definition mixed_qobj :: qobj where
  "mixed_qobj = job_of [experiment_of ''c'' [instr ''h'' [0] [], instr ''u1'' [1] [0]]]"

text \<open>The cache after scenario 1 was inserted as chunk 0.\<close>

definition scenario1_cache :: cache where
  "scenario1_cache = snd (cache_circuit scenario1_qobj [scenario1_circuit] 0 initial_cache)"

text \<open>
  The cache after the job of \<open>mixed_circuit\<close> was inserted as chunk 0, and fresh caches
  that name a cache file: one that does not exist, and one whose bytes do not unpickle.
\<close>

definition mixed_cache :: cache where
  "mixed_cache = snd (cache_circuit mixed_qobj [mixed_circuit] 0 initial_cache)"

definition missing_file_cache :: cache where
  "missing_file_cache = initial_cache\<lparr>cache_file := Some ''cache.pkl''\<rparr>"

definition corrupt_file_cache :: cache where
  "corrupt_file_cache =
     initial_cache\<lparr>cache_file := Some ''cache.pkl'', disk := (\<lambda>f. None)(''cache.pkl'' \<mapsto> Garbage)\<rparr>"

text \<open>
  A circuit with a \<open>snapshot\<close>, its compiled job, and the cache that holds this job as
  chunk 0, in safe mode and in naughty mode.
\<close>

definition snapshot_circuit :: circuit where
  "snapshot_circuit = circuit_of ''c'' [gate_on ''u1'' [0] [1 / 2], gate_on ''snapshot'' [0] [3]]"

definition snapshot_qobj :: qobj where
  "snapshot_qobj = job_of [experiment_of ''c'' [instr ''u1'' [0] [0], instr ''snapshot'' [0] [7]]]"

definition snapshot_cache :: cache where
  "snapshot_cache = snd (cache_circuit snapshot_qobj [snapshot_circuit] 0 initial_cache)"

definition naughty_snapshot_cache :: cache where
  "naughty_snapshot_cache = snapshot_cache\<lparr>naughty_mode := True\<rparr>"

text \<open>
  A circuit whose second gate has two parameters, compiled to a job whose second
  instruction has one, and the cache that holds this job as chunk 0.
\<close>

definition arity_circuit :: circuit where
  "arity_circuit = circuit_of ''c'' [gate_on ''u1'' [0] [1 / 2], gate_on ''u2'' [1] [1 / 4, 3 / 4]]"

definition arity_qobj :: qobj where
  "arity_qobj = job_of [experiment_of ''c'' [instr ''u1'' [0] [0], instr ''u2'' [1] [0]]]"

definition arity_cache :: cache where
  "arity_cache = snd (cache_circuit arity_qobj [arity_circuit] 0 initial_cache)"

text \<open>
  The same cache in naughty mode, and a circuit whose parameter counts are those of the
  cached job.
\<close>

definition naughty_arity_cache :: cache where
  "naughty_arity_cache = arity_cache\<lparr>naughty_mode := True\<rparr>"

definition matching_circuit :: circuit where
  "matching_circuit = circuit_of ''c'' [gate_on ''u1'' [0] [1 / 2], gate_on ''u2'' [1] [1 / 4]]"






section \<open>Properties\<close>

subsection \<open>Signature strings\<close>

lemma digit_char_num: "d < 10 \<Longrightarrow> num_char (digit_char d)"
  unfolding digit_char_def num_char_def
  using nth_mem [of d "''0123456789''"] by simp

lemma str_nat_chars: "c \<in> set (str_nat n) \<Longrightarrow> num_char c"
proof (induction n rule: str_nat.induct)
  case (1 n)
  show ?case
  proof (cases "n < 10")
    case True
    with 1(2) show ?thesis using digit_char_num [of n] by (subst (asm) str_nat.simps) simp
  next
    case False
    have "n mod 10 < 10" by simp
    from digit_char_num [OF this] 1(1) [OF False] False 1(2) show ?thesis
      by (subst (asm) str_nat.simps) auto
  qed
qed

lemma str_int_chars: "c \<in> set (str_int i) \<Longrightarrow> num_char c"
  using str_nat_chars [of c "nat i"] str_nat_chars [of c "nat (- i)"]
  by (auto simp: str_int_def num_char_def split: if_splits)

lemma join_chars: "(\<forall>x\<in>set xs. \<forall>c\<in>set x. P c) \<Longrightarrow> (\<forall>c\<in>set sep. P c) \<Longrightarrow> c \<in> set (join sep xs) \<Longrightarrow> P c"
  by (induction sep xs rule: join.induct) auto

lemma str_list_bracket: "\<exists>r. str_list qs = CHR ''['' # r \<and> CHR ''['' \<notin> set r"
proof -
  have "c \<noteq> CHR ''[''" if "c \<in> set (join '', '' (map str_int qs))" for c
  proof (rule join_chars [where P = "\<lambda>c. c \<noteq> CHR ''[''", OF _ _ that])
    show "\<forall>x\<in>set (map str_int qs). \<forall>c\<in>set x. c \<noteq> CHR ''[''"
      using str_int_chars by (auto simp: num_char_def)
    show "\<forall>c\<in>set '', ''. c \<noteq> CHR ''[''" by simp
  qed
  then have "CHR ''['' \<notin> set (join '', '' (map str_int qs) @ '']'')"
    by auto
  then show ?thesis by (simp add: str_list_def)
qed


lemma split_at_last: "a \<notin> set r1 \<Longrightarrow> a \<notin> set r2 \<Longrightarrow> n1 @ a # r1 = n2 @ a # r2 \<Longrightarrow> n1 = n2 \<and> r1 = r2"
proof (induction n1 arbitrary: n2)
  case Nil
  then show ?case by (cases n2) auto
next
  case (Cons x n1)
  then show ?case by (cases n2) auto
qed

lemma type_and_qubits_inj:
  assumes "type_and_qubits n1 q1 = type_and_qubits n2 q2"
  shows "n1 = n2 \<and> str_list q1 = str_list q2"
proof -
  obtain r1 where r1: "str_list q1 = CHR ''['' # r1" "CHR ''['' \<notin> set r1"
    using str_list_bracket by blast
  obtain r2 where r2: "str_list q2 = CHR ''['' # r2" "CHR ''['' \<notin> set r2"
    using str_list_bracket by blast
  from assms have "n1 @ CHR ''['' # r1 = n2 @ CHR ''['' # r2"
    by (simp add: type_and_qubits_def r1 r2)
  from split_at_last [OF r1(2) r2(2) this] show ?thesis by (simp add: r1 r2)
qed


subsection \<open>The queues of signatures\<close>

lemma graph_get_update: "graph_get (AList.update k v g) k' = (if k' = k then v else graph_get g k')"
  by (simp add: graph_get_def update_conv')

lemma source_indices_Nil: "source_indices idx [] k = []"
  by (simp add: source_indices_def)

lemma source_indices_Cons:
  "source_indices idx (u # raw) k =
     (if gate_key idx u = Inr k then [0] else []) @ map Suc (source_indices idx raw k)"
proof -
  have "[0..<length (u # raw)] = 0 # map Suc [0..<length raw]"
    by (simp add: upt_conv_Cons map_Suc_upt del: upt_Suc)
  then show ?thesis
    by (simp add: source_indices_def filter_map comp_def del: upt_Suc)
qed

lemma build_op_graph_get:
  "build_op_graph idx raw i g = Inr g' \<Longrightarrow>
     graph_get g' k = graph_get g k @ map (\<lambda>j. i + j) (source_indices idx raw k)"
proof (induction raw arbitrary: i g)
  case Nil
  then show ?case by (simp add: source_indices_Nil)
next
  case (Cons u raw)
  from Cons.prems obtain qs where qs: "resolve_qubits idx (arg u) = Inr qs"
    by (auto split: sum.splits)
  let ?k = "type_and_qubits (gate_name u) qs"
  from Cons.prems qs
  have "build_op_graph idx raw (Suc i) (AList.update ?k (graph_get g ?k @ [i]) g) = Inr g'"
    by (simp add: Let_def)
  from Cons.IH [OF this] have
    "graph_get g' k = graph_get (AList.update ?k (graph_get g ?k @ [i]) g) k
        @ map (\<lambda>j. Suc i + j) (source_indices idx raw k)" .
  moreover have "gate_key idx u = Inr ?k" by (simp add: gate_key_def qs)
  ultimately show ?case
    by (simp add: graph_get_update source_indices_Cons comp_def)
qed

lemma build_op_graph_dom:
  "build_op_graph idx raw i g = Inr g' \<Longrightarrow>
     (map_of g' k = None) = (map_of g k = None \<and> source_indices idx raw k = [])"
proof (induction raw arbitrary: i g)
  case Nil
  then show ?case by (simp add: source_indices_Nil)
next
  case (Cons u raw)
  from Cons.prems obtain qs where qs: "resolve_qubits idx (arg u) = Inr qs"
    by (auto split: sum.splits)
  let ?k = "type_and_qubits (gate_name u) qs"
  from Cons.prems qs
  have "build_op_graph idx raw (Suc i) (AList.update ?k (graph_get g ?k @ [i]) g) = Inr g'"
    by (simp add: Let_def)
  from Cons.IH [OF this] have
    "(map_of g' k = None) = (map_of (AList.update ?k (graph_get g ?k @ [i]) g) k = None
        \<and> source_indices idx raw k = [])" .
  moreover have "gate_key idx u = Inr ?k" by (simp add: gate_key_def qs)
  ultimately show ?case
    by (auto simp: update_conv' source_indices_Cons)
qed

lemma source_indices_key:
  "i \<in> set (source_indices idx raw k) \<Longrightarrow> i < length raw \<and> gate_key idx (raw ! i) = Inr k"
  by (simp add: source_indices_def)

lemma source_indices_distinct: "distinct (source_indices idx raw k)"
  by (simp add: source_indices_def)


subsection \<open>The matching loop\<close>

lemma list_insert_end: "length xs \<le> i \<Longrightarrow> list_insert i x xs = xs @ [x]"
  by (simp add: list_insert_def)

lemma match_gates_step:
  assumes ok: "graph_ok idx raw g"
    and m: "match_gates idx raw (c # cs) j g mapping = Inr r"
  shows "\<exists>i ops. map_of g (instr_key c) = Some (i # ops)
           \<and> match_gates idx raw cs (Suc j) (AList.update (instr_key c) ops g)
                (list_insert j i mapping) = Inr r"
proof -
  let ?k = "instr_key c"
  from m obtain i ops where g: "map_of g ?k = Some (i # ops)"
    by (auto simp: Let_def instr_key_def split: option.splits list.splits)
  with m have i: "i < length raw"
    by (auto simp: Let_def instr_key_def split: if_splits)
  from g have "i \<in> set (graph_get g ?k)" by (simp add: graph_get_def)
  with ok have key: "gate_key idx (raw ! i) = Inr ?k" by (simp add: graph_ok_def)
  then obtain qs where qs: "resolve_qubits idx (arg (raw ! i)) = Inr qs"
    and "type_and_qubits (gate_name (raw ! i)) qs = type_and_qubits (instr_name c) (qubits c)"
    by (auto simp: gate_key_def instr_key_def split: sum.splits)
  from type_and_qubits_inj [OF this(2)]
  have same: "instr_name c = gate_name (raw ! i)" "str_list (qubits c) = str_list qs"
    by simp_all
  from m have "match_gates idx raw cs (Suc j) (AList.update ?k ops g)
      (if instr_name c = gate_name (raw ! i) \<and> str_list (qubits c) = str_list qs
       then list_insert j i mapping else mapping) = Inr r"
    unfolding match_gates.simps Let_def instr_key_def [symmetric] g using i qs by simp
  with g same show ?thesis by simp
qed

lemma graph_ok_pop:
  assumes "graph_ok idx raw g" "map_of g k = Some (i # ops)"
  shows "graph_ok idx raw (AList.update k ops g)"
proof -
  from assms(2) have "graph_get g k = i # ops" by (simp add: graph_get_def)
  with assms(1) show ?thesis
    unfolding graph_ok_def graph_get_update
    by (metis list.set_intros(2))
qed

lemma rank_0: "rank (c # cs) 0 = 0"
  by (simp add: rank_def)

lemma rank_Suc:
  "rank (c # cs) (Suc p) = (if instr_key c = instr_key (cs ! p) then Suc (rank cs p) else rank cs p)"
  by (simp add: rank_def)

lemma match_gates_fifo:
  assumes "graph_ok idx raw g" "length mapping = j"
    and "match_gates idx raw cs j g mapping = Inr (g', mapping')"
  shows "length mapping' = j + length cs \<and> take j mapping' = mapping
      \<and> (\<forall>k. graph_get g' k = drop (length (filter (\<lambda>c. instr_key c = k) cs)) (graph_get g k))
      \<and> (\<forall>p<length cs. rank cs p < length (graph_get g (instr_key (cs ! p)))
            \<and> mapping' ! (j + p) = graph_get g (instr_key (cs ! p)) ! rank cs p)"
  using assms
proof (induction cs arbitrary: j g mapping)
  case Nil
  then show ?case by simp
next
  case (Cons c cs)
  let ?k = "instr_key c"
  from match_gates_step [OF Cons.prems(1) Cons.prems(3)]
  obtain i ops where g: "map_of g ?k = Some (i # ops)"
    and m: "match_gates idx raw cs (Suc j) (AList.update ?k ops g) (list_insert j i mapping)
              = Inr (g', mapping')"
    by blast
  let ?g1 = "AList.update ?k ops g"
  have ins: "list_insert j i mapping = mapping @ [i]"
    using Cons.prems(2) by (simp add: list_insert_end)
  have len1: "length (list_insert j i mapping) = Suc j"
    using Cons.prems(2) by (simp add: ins)
  have gk: "graph_get g ?k = i # ops" using g by (simp add: graph_get_def)
  have g1: "graph_get ?g1 k = (if k = ?k then ops else graph_get g k)" for k
    by (simp add: graph_get_update)
  note IH = Cons.IH [OF graph_ok_pop [OF Cons.prems(1) g] len1 m]
  from IH have L: "length mapping' = Suc j + length cs"
    and T: "take (Suc j) mapping' = mapping @ [i]"
    and D: "\<And>k. graph_get g' k = drop (length (filter (\<lambda>c. instr_key c = k) cs)) (graph_get ?g1 k)"
    and P: "\<And>p. p < length cs \<Longrightarrow> rank cs p < length (graph_get ?g1 (instr_key (cs ! p)))
            \<and> mapping' ! (Suc j + p) = graph_get ?g1 (instr_key (cs ! p)) ! rank cs p"
    by (simp_all add: ins)
  have c1: "length mapping' = j + length (c # cs)" using L by simp
  have "take j (take (Suc j) mapping') = take j (mapping @ [i])" using T by simp
  then have c2: "take j mapping' = mapping" using Cons.prems(2) by (simp add: min_def)
  have c3: "graph_get g' k = drop (length (filter (\<lambda>c. instr_key c = k) (c # cs))) (graph_get g k)" for k
    using D [of k] by (simp add: g1 gk)
  have c4: "rank (c # cs) p < length (graph_get g (instr_key ((c # cs) ! p)))
            \<and> mapping' ! (j + p) = graph_get g (instr_key ((c # cs) ! p)) ! rank (c # cs) p"
    if "p < length (c # cs)" for p
  proof (cases p)
    case 0
    have "mapping' ! j = take (Suc j) mapping' ! j" by simp
    also have "\<dots> = i" unfolding T using Cons.prems(2) by (simp add: nth_append)
    finally show ?thesis using 0 by (simp add: rank_0 gk)
  next
    case (Suc p')
    with that have "p' < length cs" by simp
    note P' = P [OF this]
    show ?thesis
    proof (cases "instr_key (cs ! p') = ?k")
      case True
      with P' Suc show ?thesis by (simp add: rank_Suc g1 gk)
    next
      case False
      with P' Suc show ?thesis by (auto simp: rank_Suc g1)
    qed
  qed
  from c1 c2 c3 c4 show ?case by blast
qed

lemma build_op_graph_source:
  assumes "build_op_graph idx raw 0 [] = Inr g"
  shows "graph_get g k = source_indices idx raw k"
  using build_op_graph_get [OF assms, of k] by (simp add: graph_get_def)

lemma build_op_graph_ok:
  assumes "build_op_graph idx raw 0 [] = Inr g"
  shows "graph_ok idx raw g"
  unfolding graph_ok_def build_op_graph_source [OF assms]
  using source_indices_key by blast

lemma circuit_mapping_fifo:
  assumes "circuit_mapping c qobj n = Inr (g', m)"
  shows "n < length (experiments qobj)
    \<and> length m = length (instructions (experiments qobj ! n))
    \<and> (\<forall>k. graph_get g' k =
          drop (length (filter (\<lambda>i. instr_key i = k) (instructions (experiments qobj ! n))))
            (source_indices (qreg_indeces c) (raw_gates c) k))
    \<and> (\<forall>p<length (instructions (experiments qobj ! n)).
          rank (instructions (experiments qobj ! n)) p
            < length (source_indices (qreg_indeces c) (raw_gates c)
                        (instr_key (instructions (experiments qobj ! n) ! p)))
          \<and> m ! p = source_indices (qreg_indeces c) (raw_gates c)
                        (instr_key (instructions (experiments qobj ! n) ! p))
                      ! rank (instructions (experiments qobj ! n)) p)"
proof -
  let ?idx = "qreg_indeces c" and ?raw = "raw_gates c"
  from assms obtain g where b: "build_op_graph ?idx ?raw 0 [] = Inr g"
    by (auto simp: circuit_mapping_def split: sum.splits)
  with assms have n: "n < length (experiments qobj)"
    and m: "match_gates ?idx ?raw (instructions (experiments qobj ! n)) 0 g [] = Inr (g', m)"
    by (auto simp: circuit_mapping_def split: if_splits)
  from match_gates_fifo [OF build_op_graph_ok [OF b] _ m] n show ?thesis
    by (simp add: build_op_graph_source [OF b])
qed

lemma pending_update:
  "pending (AList.update k v g) + mset (graph_get g k) = pending g + mset v"
  by (induction g) (auto simp: pending_def graph_get_def)

lemma build_op_graph_pending:
  "build_op_graph idx raw i g = Inr g' \<Longrightarrow> pending g' = pending g + mset [i..<i + length raw]"
proof (induction raw arbitrary: i g)
  case Nil
  then show ?case by simp
next
  case (Cons u raw)
  from Cons.prems obtain qs where qs: "resolve_qubits idx (arg u) = Inr qs"
    by (auto split: sum.splits)
  let ?k = "type_and_qubits (gate_name u) qs"
  let ?g1 = "AList.update ?k (graph_get g ?k @ [i]) g"
  from Cons.prems qs have "build_op_graph idx raw (Suc i) ?g1 = Inr g'"
    by (simp add: Let_def)
  from Cons.IH [OF this] have "pending g' = pending ?g1 + mset [Suc i..<Suc i + length raw]" .
  moreover from pending_update [of ?k "graph_get g ?k @ [i]" g]
  have "pending ?g1 = pending g + {#i#}" by simp
  moreover have "mset [i..<i + length (u # raw)] = {#i#} + mset [Suc i..<Suc i + length raw]"
    by (simp add: upt_conv_Cons del: upt_Suc)
  ultimately show ?case by simp
qed

lemma match_gates_pending:
  assumes "graph_ok idx raw g" "length mapping = j"
    and "match_gates idx raw cs j g mapping = Inr (g', mapping')"
  shows "mset mapping' + pending g' = mset mapping + pending g"
  using assms
proof (induction cs arbitrary: j g mapping)
  case Nil
  then show ?case by simp
next
  case (Cons c cs)
  let ?k = "instr_key c"
  from match_gates_step [OF Cons.prems(1) Cons.prems(3)]
  obtain i ops where g: "map_of g ?k = Some (i # ops)"
    and m: "match_gates idx raw cs (Suc j) (AList.update ?k ops g) (list_insert j i mapping)
              = Inr (g', mapping')"
    by blast
  have ins: "list_insert j i mapping = mapping @ [i]"
    using Cons.prems(2) by (simp add: list_insert_end)
  have len1: "length (list_insert j i mapping) = Suc j"
    using Cons.prems(2) by (simp add: ins)
  from Cons.IH [OF graph_ok_pop [OF Cons.prems(1) g] len1 m]
  have "mset mapping' + pending g' = mset (mapping @ [i]) + pending (AList.update ?k ops g)"
    by (simp add: ins)
  moreover from pending_update [of ?k ops g] g
  have "pending (AList.update ?k ops g) + {#i#} = pending g"
    by (simp add: graph_get_def)
  then have "pending g = pending (AList.update ?k ops g) + {#i#}" by simp
  ultimately show ?case by simp
qed

lemma leftover_None: "leftover g = None \<Longrightarrow> pending g = {#}"
  by (induction g rule: leftover.induct) (auto simp: pending_def split: if_splits)



lemma circuit_mapping_perm:
  assumes "circuit_mapping c qobj n = Inr (g', m)" "leftover g' = None"
  shows "mset m = mset [0..<length (raw_gates c)]"
proof -
  let ?idx = "qreg_indeces c" and ?raw = "raw_gates c"
  from assms obtain g where b: "build_op_graph ?idx ?raw 0 [] = Inr g"
    by (auto simp: circuit_mapping_def split: sum.splits)
  with assms have m: "match_gates ?idx ?raw (instructions (experiments qobj ! n)) 0 g [] = Inr (g', m)"
    by (auto simp: circuit_mapping_def split: if_splits)
  from match_gates_pending [OF build_op_graph_ok [OF b] _ m]
  have "mset m + pending g' = pending g" by simp
  with leftover_None [OF assms(2)] build_op_graph_pending [OF b]
  show ?thesis by (simp add: pending_def)
qed


subsection \<open>The loop over the circuits\<close>

lemma del_qasm_frame:
  assumes "del_qasm chunk n qs = Inr qs1"
  shows "\<exists>q'. qs1 = qs[chunk := q'] \<and> chunk < length qs \<and> qobj_id q' = qobj_id (qs ! chunk)
           \<and> map instructions (experiments q') = map instructions (experiments (qs ! chunk))"
proof -
  from assms have c: "chunk < length qs" and n: "n < length (experiments (qs ! chunk))"
    by (auto simp: del_qasm_def split: if_splits)
  let ?q = "qs ! chunk"
  let ?e = "experiments ?q ! n"
  let ?q' = "?q\<lparr>experiments := (experiments ?q)[n := ?e\<lparr>header := (header ?e)\<lparr>compiled_circuit_qasm := None\<rparr>\<rparr>]\<rparr>"
  from assms c n have "qs1 = qs[chunk := ?q']"
    by (auto simp: del_qasm_def Let_def split: option.splits)
  moreover have "map instructions (experiments ?q') = map instructions (experiments ?q)"
    using n by (simp add: map_update list_update_same_conv)
  ultimately show ?thesis using c by (intro exI [of _ ?q']) simp
qed

lemma store_mapping_Inr:
  assumes "store_mapping chunk n mapping ms = Inr ms1"
  shows "chunk < length ms \<and> n < length (ms ! chunk) \<and> ms1 = ms[chunk := (ms ! chunk)[n := mapping]]"
  using assms by (auto simp: store_mapping_def split: if_splits)

lemma cache_circuits_frame:
  "cache_circuits qobj cs chunk n (qs, ms) = (r, (qs', ms')) \<Longrightarrow>
     (\<exists>q'. qs' = qs[chunk := q']
        \<and> (chunk < length qs \<longrightarrow> qobj_id q' = qobj_id (qs ! chunk)
             \<and> map instructions (experiments q') = map instructions (experiments (qs ! chunk))))
     \<and> (\<exists>m'. ms' = ms[chunk := m']
        \<and> (chunk < length ms \<longrightarrow> length m' = length (ms ! chunk) \<and> (\<forall>i<n. m' ! i = ms ! chunk ! i)))"
proof (induction cs arbitrary: n qs ms)
  case Nil
  then have "qs' = qs[chunk := qs ! chunk]" "ms' = ms[chunk := ms ! chunk]" by simp_all
  then show ?case by blast
next
  case (Cons c cs)
  have trivial: ?case if "qs' = qs1" "ms' = ms"
      "\<exists>q'. qs1 = qs[chunk := q'] \<and> (chunk < length qs \<longrightarrow> qobj_id q' = qobj_id (qs ! chunk)
           \<and> map instructions (experiments q') = map instructions (experiments (qs ! chunk)))" for qs1
  proof -
    have "ms' = ms[chunk := ms ! chunk]" using that(2) by simp
    with that(1,3) show ?thesis by blast
  qed
  show ?case
  proof (cases "del_qasm chunk n qs")
    case (Inl e)
    with Cons.prems have "qs' = qs" "ms' = ms" by simp_all
    moreover have "\<exists>q'. qs = qs[chunk := q'] \<and> (chunk < length qs \<longrightarrow> qobj_id q' = qobj_id (qs ! chunk)
           \<and> map instructions (experiments q') = map instructions (experiments (qs ! chunk)))"
      by (rule exI [of _ "qs ! chunk"]) simp
    ultimately show ?thesis by (rule trivial)
  next
    case (Inr qs1)
    from del_qasm_frame [OF Inr] obtain q1 where q1: "qs1 = qs[chunk := q1]" "chunk < length qs"
      "qobj_id q1 = qobj_id (qs ! chunk)"
      "map instructions (experiments q1) = map instructions (experiments (qs ! chunk))"
      by blast
    then have q1': "\<exists>q'. qs1 = qs[chunk := q'] \<and> (chunk < length qs \<longrightarrow> qobj_id q' = qobj_id (qs ! chunk)
           \<and> map instructions (experiments q') = map instructions (experiments (qs ! chunk)))"
      by blast
    show ?thesis
    proof (cases "circuit_mapping c qobj n")
      case (Inl e)
      with Cons.prems Inr have "qs' = qs1" "ms' = ms" by simp_all
      then show ?thesis using q1' by (rule trivial)
    next
      case Inr2: (Inr gm)
      obtain g mapping where gm: "gm = (g, mapping)" by (cases gm)
      show ?thesis
      proof (cases "store_mapping chunk n mapping ms")
        case (Inl e)
        with Cons.prems Inr Inr2 gm have "qs' = qs1" "ms' = ms" by simp_all
        then show ?thesis using q1' by (rule trivial)
      next
        case Inr3: (Inr ms1)
        from store_mapping_Inr [OF Inr3] have ms1: "chunk < length ms" "n < length (ms ! chunk)"
          "ms1 = ms[chunk := (ms ! chunk)[n := mapping]]" by simp_all
        show ?thesis
        proof (cases "leftover g")
          case (Some e)
          with Cons.prems Inr Inr2 gm Inr3 have "qs' = qs1" "ms' = ms1" by simp_all
          with q1' ms1 show ?thesis
            by (auto intro!: exI [of _ "(ms ! chunk)[n := mapping]"])
        next
          case None
          with Cons.prems Inr Inr2 gm Inr3
          have "cache_circuits qobj cs chunk (Suc n) (qs1, ms1) = (r, (qs', ms'))" by simp
          from Cons.IH [OF this] obtain q' m' where
            q': "qs' = qs1[chunk := q']" "chunk < length qs1 \<longrightarrow> qobj_id q' = qobj_id (qs1 ! chunk)
               \<and> map instructions (experiments q') = map instructions (experiments (qs1 ! chunk))"
            and m': "ms' = ms1[chunk := m']" "chunk < length ms1 \<longrightarrow> length m' = length (ms1 ! chunk)
               \<and> (\<forall>i<Suc n. m' ! i = ms1 ! chunk ! i)"
            by blast
          have "qs' = qs[chunk := q']" using q' q1 by simp
          moreover have "qobj_id q' = qobj_id (qs ! chunk)
             \<and> map instructions (experiments q') = map instructions (experiments (qs ! chunk))"
            using q' q1 by simp
          moreover have "ms' = ms[chunk := m']" using m' ms1 by simp
          moreover have "length m' = length (ms ! chunk) \<and> (\<forall>i<n. m' ! i = ms ! chunk ! i)"
            using m' ms1 by simp
          ultimately show ?thesis by blast
        qed
      qed
    qed
  qed
qed

lemma cache_circuits_success:
  "cache_circuits qobj cs chunk n (qs, ms) = (None, (qs', ms')) \<Longrightarrow> i < length cs \<Longrightarrow>
     chunk < length ms \<and> n + i < length (ms ! chunk)
     \<and> (\<exists>g. circuit_mapping (cs ! i) qobj (n + i) = Inr (g, ms' ! chunk ! (n + i))
              \<and> leftover g = None)"
proof (induction cs arbitrary: n qs ms i)
  case Nil
  then show ?case by simp
next
  case (Cons c cs)
  from Cons.prems(1) obtain qs1 where d: "del_qasm chunk n qs = Inr qs1"
    by (auto split: sum.splits)
  from Cons.prems(1) d obtain g mapping where cm: "circuit_mapping c qobj n = Inr (g, mapping)"
    by (auto split: sum.splits)
  from Cons.prems(1) d cm obtain ms1 where st: "store_mapping chunk n mapping ms = Inr ms1"
    by (auto split: sum.splits)
  from Cons.prems(1) d cm st have lo: "leftover g = None"
    by (auto split: option.splits)
  from Cons.prems(1) d cm st lo
  have rec: "cache_circuits qobj cs chunk (Suc n) (qs1, ms1) = (None, (qs', ms'))" by simp
  from store_mapping_Inr [OF st] have ms1: "chunk < length ms" "n < length (ms ! chunk)"
    "ms1 = ms[chunk := (ms ! chunk)[n := mapping]]" by simp_all
  show ?case
  proof (cases i)
    case 0
    from cache_circuits_frame [OF rec] obtain m' where "ms' = ms1[chunk := m']"
      "chunk < length ms1 \<longrightarrow> length m' = length (ms1 ! chunk) \<and> (\<forall>i<Suc n. m' ! i = ms1 ! chunk ! i)"
      by blast
    with ms1 have "ms' ! chunk ! n = mapping" by simp
    with 0 cm lo ms1 show ?thesis by simp
  next
    case (Suc i')
    with Cons.prems(2) have "i' < length cs" by simp
    from Cons.IH [OF rec this] ms1 Suc show ?thesis by simp
  qed
qed

subsection \<open>Evaluating the examples\<close>

lemmas example_defs = q_reg_def gate_on_def circuit_of_def instr_def experiment_of_def job_of_def
  scenario1_circuit_def scenario1_qobj_def scenario2_circuit_def scenario2_qobj_def
  single_circuit_def absent_qobj_def exhausted_qobj_def initial_cache_def
  mixed_circuit_def mixed_qobj_def

lemmas eval_defs = cache_circuit_def circuit_mapping_def raw_gates_def qreg_indeces_def qreg_sizes_def
  type_and_qubits_def str_list_def str_int_def str_nat.simps digit_char_def graph_get_def
  list_insert_def enumerate_eq_zip del_qasm_def store_mapping_def save_cache_def deepcopy_def Let_def

lemmas load_defs = load_qobj_from_cache_def try_loading_cache_from_file_def reuse_chunk_def
  reuse_experiment_def patch_experiment_def mapping_at_def params_len_def float_list_def
  exec_qobj_def raw_gates_def deepcopy_def list_insert_def Let_def

subsection \<open>Signature strings determine name and qubits\<close>

lemma str_nat_nonempty: "str_nat n \<noteq> []"
  by (subst str_nat.simps) simp

lemma digit_char_inj: "a < 10 \<Longrightarrow> b < 10 \<Longrightarrow> digit_char a = digit_char b \<Longrightarrow> a = b"
proof -
  have d: "distinct ''0123456789''" by simp
  show "a < 10 \<Longrightarrow> b < 10 \<Longrightarrow> digit_char a = digit_char b \<Longrightarrow> a = b"
    unfolding digit_char_def using nth_eq_iff_index_eq [OF d, of a b] by simp
qed

lemma digit_char_not_minus: "d < 10 \<Longrightarrow> digit_char d \<noteq> CHR ''-''"
  unfolding digit_char_def using nth_mem [of d "''0123456789''"] by auto

lemma str_nat_inj: "str_nat n = str_nat m \<Longrightarrow> n = m"
proof (induction n arbitrary: m rule: str_nat.induct)
  case (1 n)
  show ?case
  proof (cases "n < 10")
    case n: True
    show ?thesis
    proof (cases "m < 10")
      case True
      with n 1(2) show ?thesis
        by (simp add: str_nat.simps [of n] str_nat.simps [of m] digit_char_inj)
    next
      case False
      with n 1(2) str_nat_nonempty [of "m div 10"] show ?thesis
        by (simp add: str_nat.simps [of n] str_nat.simps [of m] Cons_eq_append_conv)
    qed
  next
    case n: False
    show ?thesis
    proof (cases "m < 10")
      case True
      with n 1(2) str_nat_nonempty [of "n div 10"] show ?thesis
        by (simp add: str_nat.simps [of n] str_nat.simps [of m] append_eq_Cons_conv)
    next
      case False
      with n 1(2) have e: "str_nat (n div 10) = str_nat (m div 10)"
        and d: "digit_char (n mod 10) = digit_char (m mod 10)"
        by (simp_all add: str_nat.simps [of n] str_nat.simps [of m])
      from 1(1) [OF n e] have "n div 10 = m div 10" .
      moreover from digit_char_inj [OF _ _ d] have "n mod 10 = m mod 10" by simp
      ultimately show ?thesis by (metis div_mult_mod_eq)
    qed
  qed
qed

lemma str_nat_hd: "hd (str_nat n) \<noteq> CHR ''-''"
proof (induction n rule: str_nat.induct)
  case (1 n)
  show ?case
  proof (cases "n < 10")
    case True
    then show ?thesis by (simp add: str_nat.simps [of n] digit_char_not_minus)
  next
    case False
    with 1 [OF False] str_nat_nonempty [of "n div 10"] show ?thesis
      by (simp add: str_nat.simps [of n])
  qed
qed

lemma str_int_inj: "str_int i = str_int j \<Longrightarrow> i = j"
proof -
  assume e: "str_int i = str_int j"
  have neg: False if "a < 0" "\<not> b < 0" "str_int a = str_int b" for a b
  proof -
    from that have "CHR ''-'' # str_nat (nat (- a)) = str_nat (nat b)" by (simp add: str_int_def)
    then have "hd (str_nat (nat b)) = CHR ''-''" by (metis list.sel(1))
    with str_nat_hd show False by blast
  qed
  show "i = j"
  proof (cases "i < 0")
    case i: True
    show ?thesis
    proof (cases "j < 0")
      case True
      with i e have "nat (- i) = nat (- j)" by (simp add: str_int_def str_nat_inj)
      with i True show ?thesis by simp
    next
      case False
      from neg [OF i False e] show ?thesis ..
    qed
  next
    case i: False
    show ?thesis
    proof (cases "j < 0")
      case True
      from neg [OF True i e [symmetric]] show ?thesis ..
    next
      case False
      with i e have "nat i = nat j" by (simp add: str_int_def str_nat_inj)
      with i False show ?thesis by simp
    qed
  qed
qed

lemma split_at_first:
  "a \<notin> set x \<Longrightarrow> a \<notin> set y \<Longrightarrow> x @ a # r1 = y @ a # r2 \<Longrightarrow> x = y \<and> r1 = r2"
proof (induction x arbitrary: y)
  case Nil
  then show ?case by (cases y) auto
next
  case (Cons c x)
  then show ?case by (cases y) auto
qed

lemma join_Cons2: "join sep (x # y # ys) = x @ sep @ join sep (y # ys)"
  by simp

lemma join_nonempty: "x \<noteq> [] \<Longrightarrow> join sep (x # xs) \<noteq> []"
  by (cases xs) simp_all

lemma join_inj:
  assumes "\<forall>x\<in>set xs. x \<noteq> [] \<and> a \<notin> set x" "\<forall>y\<in>set ys. y \<noteq> [] \<and> a \<notin> set y"
    and "join (a # s) xs = join (a # s) ys"
  shows "xs = ys"
  using assms
proof (induction xs arbitrary: ys)
  case Nil
  then show ?case using join_nonempty [of "hd ys" "a # s" "tl ys"] by (cases ys) auto
next
  case (Cons x xs)
  show ?case
  proof (cases ys)
    case Nil
    with Cons.prems join_nonempty [of x "a # s" xs] show ?thesis by simp
  next
    case ys: (Cons y ys')
    have x: "x \<noteq> []" "a \<notin> set x" and y: "y \<noteq> []" "a \<notin> set y"
      using Cons.prems ys by simp_all
    show ?thesis
    proof (cases xs)
      case xs: Nil
      show ?thesis
      proof (cases ys')
        case Nil
        with Cons.prems ys xs show ?thesis by simp
      next
        case (Cons y' ys'')
        with Cons.prems(3) ys xs have "x = y @ a # s @ join (a # s) (y' # ys'')" by simp
        then have "a \<in> set x" by simp
        with x show ?thesis by simp
      qed
    next
      case xs: (Cons x' xs')
      show ?thesis
      proof (cases ys')
        case Nil
        with Cons.prems(3) ys xs have "y = x @ a # s @ join (a # s) (x' # xs')" by simp
        then have "a \<in> set y" by simp
        with y show ?thesis by simp
      next
        case ys': (Cons y' ys'')
        from Cons.prems(3) have "x @ a # (s @ join (a # s) xs) = y @ a # (s @ join (a # s) ys')"
          unfolding ys xs ys' join_Cons2 by simp
        from split_at_first [OF x(2) y(2) this]
        have xy: "x = y" and r: "join (a # s) xs = join (a # s) ys'" by simp_all
        from Cons.prems(1,2) ys have "xs = ys'"
          by (intro Cons.IH) (simp_all add: r)
        with xy ys show ?thesis by simp
      qed
    qed
  qed
qed

lemma str_int_wellformed: "str_int i \<noteq> [] \<and> CHR '','' \<notin> set (str_int i)"
proof -
  have "str_int i \<noteq> []" using str_nat_nonempty by (simp add: str_int_def)
  moreover have "CHR '','' \<notin> set (str_int i)"
    using str_int_chars [of "CHR '',''" i] by (auto simp: num_char_def)
  ultimately show ?thesis by simp
qed

lemma str_list_inj: "str_list a = str_list b \<Longrightarrow> a = b"
proof -
  assume "str_list a = str_list b"
  then have "join '', '' (map str_int a) = join '', '' (map str_int b)"
    by (simp add: str_list_def)
  then have "map str_int a = map str_int b"
    by (intro join_inj) (simp_all add: str_int_wellformed)
  moreover have "inj str_int" by (rule injI) (rule str_int_inj)
  ultimately show "a = b" by (simp add: inj_map_eq_map)
qed

subsection \<open>What \<open>cache_circuit\<close> stores\<close>

lemma save_cache_mappings:
  "save_cache s = (r, s') \<Longrightarrow> mappings s' = mappings s \<and> qobjs s' = qobjs s"
  by (auto simp: save_cache_def split: option.splits if_splits)

lemma cache_circuit_loop:
  assumes "cache_circuit qobj circuits chunk s = (r, s')"
  shows "\<exists>err qs2 ms2.
      cache_circuits qobj circuits chunk 0
        (list_insert chunk (deepcopy qobj) (case qobjs s of None \<Rightarrow> [] | Some qs \<Rightarrow> qs),
         list_insert chunk (replicate (length circuits) []) (case mappings s of None \<Rightarrow> [] | Some ms \<Rightarrow> ms))
        = (err, (qs2, ms2))
      \<and> qobjs s' = Some qs2 \<and> mappings s' = Some ms2 \<and> (r = None \<longrightarrow> err = None)
      \<and> (err \<noteq> None \<longrightarrow> r = err)"
proof -
  let ?st = "(list_insert chunk (deepcopy qobj) (case qobjs s of None \<Rightarrow> [] | Some qs \<Rightarrow> qs),
         list_insert chunk (replicate (length circuits) []) (case mappings s of None \<Rightarrow> [] | Some ms \<Rightarrow> ms))"
  obtain err qs2 ms2 where l: "cache_circuits qobj circuits chunk 0 ?st = (err, (qs2, ms2))"
    by (metis prod_cases3)
  let ?s2 = "s\<lparr>qobjs := Some qs2, mappings := Some ms2,
                misses := Some (case misses s of None \<Rightarrow> 0 | Some n \<Rightarrow> n)\<rparr>"
  show ?thesis
  proof (cases err)
    case None
    with assms l have "save_cache ?s2 = (r, s')" by (simp add: cache_circuit_def Let_def)
    from save_cache_mappings [OF this] l None show ?thesis by simp
  next
    case (Some e)
    with assms l have "r = Some e" "s' = ?s2" by (simp_all add: cache_circuit_def Let_def)
    with l Some show ?thesis by simp
  qed
qed

lemma cache_circuit_stored:
  assumes "cache_circuit qobj circuits chunk s = (None, s')" "i < length circuits"
  shows "\<exists>ms' g. mappings s' = Some ms' \<and> chunk < length ms' \<and> i < length (ms' ! chunk)
           \<and> circuit_mapping (circuits ! i) qobj i = Inr (g, ms' ! chunk ! i) \<and> leftover g = None"
proof -
  from cache_circuit_loop [OF assms(1)] obtain qs1 ms1 qs2 ms2 where
    l: "cache_circuits qobj circuits chunk 0 (qs1, ms1) = (None, (qs2, ms2))"
    and m: "mappings s' = Some ms2"
    by auto
  from cache_circuits_success [OF l assms(2)] obtain g where
    c: "chunk < length ms1" "i < length (ms1 ! chunk)"
    "circuit_mapping (circuits ! i) qobj i = Inr (g, ms2 ! chunk ! i)" "leftover g = None"
    by auto
  from cache_circuits_frame [OF l] c(1) obtain m' where
    "ms2 = ms1[chunk := m']" "length m' = length (ms1 ! chunk)" by auto
  with c m show ?thesis by simp
qed

subsection \<open>What any call of \<open>cache_circuit\<close> does to the lists\<close>

lemma list_insert_length: "length (list_insert i x xs) = Suc (length xs)"
  by (simp add: list_insert_def)

lemma list_insert_nth: "i \<le> length xs \<Longrightarrow> list_insert i x xs ! i = x"
  by (simp add: list_insert_def nth_append)

lemma list_insert_nth_before: "j < i \<Longrightarrow> j < length xs \<Longrightarrow> list_insert i x xs ! j = xs ! j"
  by (simp add: list_insert_def nth_append)

lemma list_insert_nth_after: "i \<le> j \<Longrightarrow> j < length xs \<Longrightarrow> list_insert i x xs ! Suc j = xs ! j"
  by (simp add: list_insert_def nth_append Suc_diff_le)

lemma list_insert_update:
  "i \<le> length xs \<Longrightarrow> (list_insert i x xs)[i := y] = list_insert i y xs"
  by (simp add: list_insert_def list_update_append)

lemma list_insert_update_beyond:
  "length xs < i \<Longrightarrow> (list_insert i x xs)[i := y] = list_insert i x xs"
  by (rule list_update_beyond) (simp add: list_insert_def)

lemma cache_circuit_frame:
  assumes "cache_circuit qobj circuits chunk s = (r, s')"
  shows "\<exists>q' m'. qobjs s' = Some (list_insert chunk q' (chunks s))
           \<and> mappings s' = Some (list_insert chunk m' (chunk_mappings s))
           \<and> qobj_id q' = qobj_id qobj
           \<and> map instructions (experiments q') = map instructions (experiments qobj)
           \<and> length m' = length circuits"
proof -
  let ?qs1 = "list_insert chunk (deepcopy qobj) (chunks s)"
  let ?ms1 = "list_insert chunk (replicate (length circuits) []) (chunk_mappings s)"
  from cache_circuit_loop [OF assms] obtain err qs2 ms2 where
    l: "cache_circuits qobj circuits chunk 0 (?qs1, ?ms1) = (err, (qs2, ms2))"
    and s': "qobjs s' = Some qs2" "mappings s' = Some ms2"
    unfolding chunks_def chunk_mappings_def by blast
  from cache_circuits_frame [OF l] obtain q' m' where
    q': "qs2 = ?qs1[chunk := q']" "chunk < length ?qs1 \<longrightarrow> qobj_id q' = qobj_id (?qs1 ! chunk)
         \<and> map instructions (experiments q') = map instructions (experiments (?qs1 ! chunk))"
    and m': "ms2 = ?ms1[chunk := m']" "chunk < length ?ms1 \<longrightarrow> length m' = length (?ms1 ! chunk)"
    by blast
  have Q: "\<exists>q'. qs2 = list_insert chunk q' (chunks s) \<and> qobj_id q' = qobj_id qobj
           \<and> map instructions (experiments q') = map instructions (experiments qobj)"
  proof (cases "chunk \<le> length (chunks s)")
    case True
    with q' show ?thesis
      by (intro exI [of _ q']) (simp add: list_insert_update list_insert_nth list_insert_length deepcopy_def)
  next
    case False
    with q' show ?thesis
      by (intro exI [of _ qobj]) (simp add: list_insert_update_beyond deepcopy_def)
  qed
  have M: "\<exists>m'. ms2 = list_insert chunk m' (chunk_mappings s) \<and> length m' = length circuits"
  proof (cases "chunk \<le> length (chunk_mappings s)")
    case True
    with m' show ?thesis
      by (intro exI [of _ m']) (simp add: list_insert_update list_insert_nth list_insert_length)
  next
    case False
    with m' show ?thesis
      by (intro exI [of _ "replicate (length circuits) []"]) (simp add: list_insert_update_beyond)
  qed
  from Q M s' show ?thesis by blast
qed


subsection \<open>What \<open>load_qobj_from_cache\<close> may change in the cached jobs\<close>

lemma instr_patched_refl: "instr_patched a a"
  by (simp add: instr_patched_def)

lemma instr_patched_trans: "instr_patched a b \<Longrightarrow> instr_patched b c \<Longrightarrow> instr_patched a c"
  by (auto simp: instr_patched_def)

lemma experiment_patched_refl: "experiment_patched e e"
  by (simp add: experiment_patched_def list_all2_refl instr_patched_refl)

lemma experiment_patched_trans:
  "experiment_patched a b \<Longrightarrow> experiment_patched b c \<Longrightarrow> experiment_patched a c"
  unfolding experiment_patched_def
  using list_all2_trans [of instr_patched instr_patched instr_patched, OF instr_patched_trans]
  by auto

lemma job_patched_refl: "job_patched q q"
  by (simp add: job_patched_def experiment_patched_refl)

lemma job_patched_trans: "job_patched a b \<Longrightarrow> job_patched b c \<Longrightarrow> job_patched a c"
proof -
  assume ab: "job_patched a b" and bc: "job_patched b c"
  have "experiment_patched (experiments a ! e) (experiments c ! e)" if "e < length (experiments a)" for e
  proof -
    from that ab have "experiment_patched (experiments a ! e) (experiments b ! e)"
      and "e < length (experiments b)" by (simp_all add: job_patched_def)
    with bc show ?thesis by (auto simp: job_patched_def intro: experiment_patched_trans)
  qed
  with ab bc show ?thesis by (simp add: job_patched_def)
qed

lemma cache_patched_refl: "cache_patched chunk qs qs"
  by (simp add: cache_patched_def job_patched_refl)

lemma cache_patched_trans:
  "cache_patched chunk a b \<Longrightarrow> cache_patched chunk b c \<Longrightarrow> cache_patched chunk a c"
proof -
  assume ab: "cache_patched chunk a b" and bc: "cache_patched chunk b c"
  have "(i \<noteq> chunk \<longrightarrow> c ! i = a ! i) \<and> job_patched (a ! i) (c ! i)" if "i < length a" for i
  proof -
    from that ab have 1: "i \<noteq> chunk \<longrightarrow> b ! i = a ! i" "job_patched (a ! i) (b ! i)"
      and "i < length b" by (simp_all add: cache_patched_def)
    with bc have 2: "i \<noteq> chunk \<longrightarrow> c ! i = b ! i" "job_patched (b ! i) (c ! i)"
      by (simp_all add: cache_patched_def)
    from 1 2 show ?thesis by (auto intro: job_patched_trans)
  qed
  with ab bc show ?thesis by (simp add: cache_patched_def)
qed

lemma patch_gates_patched:
  "patch_gates ms chunk n raw j ins = (err, ins') \<Longrightarrow> list_all2 instr_patched ins ins'"
proof (induction ins arbitrary: j err ins')
  case Nil
  then show ?case by simp
next
  case (Cons c ins)
  show ?case
  proof (cases "instr_name c = ''snapshot''")
    case True
    obtain e r where r: "patch_gates ms chunk n raw (Suc j) ins = (e, r)" by (cases "patch_gates ms chunk n raw (Suc j) ins")
    with Cons.prems True have "ins' = c # r" by simp
    with Cons.IH [OF r] show ?thesis by (simp add: instr_patched_refl)
  next
    case False
    obtain e r where r: "patch_gates ms chunk n raw (Suc j) ins = (e, r)" by (cases "patch_gates ms chunk n raw (Suc j) ins")
    from Cons.prems False r
    have "ins' = c # ins \<or> (\<exists>ps. ins' = c\<lparr>params := ps\<rparr> # r)"
      by (auto simp: Let_def split: sum.splits if_splits option.splits)
    then show ?thesis
    proof
      assume "ins' = c # ins"
      then show ?thesis by (simp add: list_all2_refl instr_patched_refl)
    next
      assume "\<exists>ps. ins' = c\<lparr>params := ps\<rparr> # r"
      with Cons.IH [OF r] False show ?thesis by (auto simp: instr_patched_def)
    qed
  qed
qed

lemma cache_patched_update:
  assumes "chunk < length qs" "job_patched (qs ! chunk) q'"
  shows "cache_patched chunk qs (qs[chunk := q'])"
  using assms by (simp add: cache_patched_def nth_list_update job_patched_refl)

lemma cache_patched_append: "cache_patched chunk qs (qs @ [q])"
  by (simp add: cache_patched_def nth_append job_patched_refl)

lemma patch_experiment_frame:
  assumes "patch_experiment c chunk n s = (err, s')" "qobjs s = Some qs"
  shows "\<exists>qs'. qobjs s' = Some qs' \<and> cache_patched chunk qs qs' \<and> length qs' = length qs
           \<and> mappings s' = mappings s \<and> try_reusing_qobjs s' = try_reusing_qobjs s
           \<and> naughty_mode s' = naughty_mode s"
proof (cases "chunk < length qs \<and> n < length (experiments (qs ! chunk))")
  case False
  with assms have "s' = s" by (auto simp: patch_experiment_def split: if_splits)
  with assms(2) show ?thesis by (simp add: cache_patched_refl)
next
  case True
  let ?q = "qs ! chunk"
  let ?e = "experiments ?q ! n"
  let ?e1 = "?e\<lparr>header := (header ?e)\<lparr>header_name := circ_name c\<rparr>\<rparr>"
  obtain er ins where pg: "patch_gates (mappings s) chunk n (raw_gates c) 0 (instructions ?e1) = (er, ins)"
    by (cases "patch_gates (mappings s) chunk n (raw_gates c) 0 (instructions ?e1)")
  let ?q' = "?q\<lparr>experiments := (experiments ?q)[n := ?e1\<lparr>instructions := ins\<rparr>]\<rparr>"
  from assms True pg have s': "s' = s\<lparr>qobjs := Some (qs[chunk := ?q'])\<rparr>"
    by (simp add: patch_experiment_def Let_def)
  from patch_gates_patched [OF pg] have "experiment_patched ?e (?e1\<lparr>instructions := ins\<rparr>)"
    by (simp add: experiment_patched_def)
  then have "job_patched ?q ?q'"
    using True by (simp add: job_patched_def nth_list_update experiment_patched_refl)
  from cache_patched_update [OF _ this] True s' show ?thesis by simp
qed

lemma reuse_experiment_frame:
  assumes "reuse_experiment chunk n s = (err, s')" "qobjs s = Some qs"
  shows "\<exists>qs'. qobjs s' = Some qs' \<and> cache_patched chunk qs qs' \<and> length qs' = length qs
           \<and> try_reusing_qobjs s' = try_reusing_qobjs s \<and> naughty_mode s' = naughty_mode s"
proof (cases "try_reusing_qobjs s \<and> chunk = 0 \<and> n > 0 \<and> chunk < length qs
               \<and> length (experiments (qs ! chunk)) \<le> n \<and> experiments (qs ! 0) \<noteq> []")
  case False
  with assms have "s' = s" by (auto simp: reuse_experiment_def split: if_splits)
  with assms(2) show ?thesis by (simp add: cache_patched_refl)
next
  case True
  let ?q0 = "qs ! 0"
  let ?q' = "?q0\<lparr>experiments := list_insert n (deepcopy (experiments ?q0 ! 0)) (experiments ?q0)\<rparr>"
  from assms True have s': "qobjs s' = Some (qs[0 := ?q'])"
    "try_reusing_qobjs s' = try_reusing_qobjs s \<and> naughty_mode s' = naughty_mode s"
    by (auto simp: reuse_experiment_def Let_def split: if_splits option.splits)
  from True have c0: "chunk = 0" by blast
  from True have l: "0 < length qs" by auto
  from True have n: "length (experiments ?q0) \<le> n" by auto
  from list_insert_end [OF n]
  have "list_insert n (deepcopy (experiments ?q0 ! 0)) (experiments ?q0)
      = experiments ?q0 @ [deepcopy (experiments ?q0 ! 0)]" .
  then have jp: "job_patched ?q0 ?q'"
    by (simp add: job_patched_def nth_append experiment_patched_refl)
  from cache_patched_update [OF l jp] have "cache_patched chunk qs (qs[0 := ?q'])"
    unfolding c0 .
  with s' show ?thesis by simp
qed

lemma reuse_chunk_frame:
  assumes "reuse_chunk chunk s = (err, s')" "qobjs s = Some qs"
  shows "\<exists>qs'. qobjs s' = Some qs' \<and> cache_patched chunk qs qs' \<and> (chunk < length qs \<longrightarrow> qs' = qs)
           \<and> try_reusing_qobjs s' = try_reusing_qobjs s \<and> naughty_mode s' = naughty_mode s"
proof (cases "try_reusing_qobjs s \<and> length qs \<le> chunk")
  case False
  with assms have "s' = s" by (auto simp: reuse_chunk_def)
  with assms(2) show ?thesis by (simp add: cache_patched_refl)
next
  case True
  with assms have "qobjs s' = Some qs \<or> qobjs s' = Some (list_insert chunk (deepcopy (qs ! 0)) qs)"
    and "try_reusing_qobjs s' = try_reusing_qobjs s \<and> naughty_mode s' = naughty_mode s"
    by (auto simp: reuse_chunk_def Let_def split: option.splits if_splits)
  with True show ?thesis
    by (auto simp: list_insert_end cache_patched_refl cache_patched_append)
qed

lemma load_circuits_frame:
  "load_circuits cs chunk n s = (err, s') \<Longrightarrow> qobjs s = Some qs \<Longrightarrow>
     \<exists>qs'. qobjs s' = Some qs' \<and> cache_patched chunk qs qs' \<and> length qs' = length qs
       \<and> naughty_mode s' = naughty_mode s"
proof (induction cs arbitrary: n s qs)
  case Nil
  then show ?case by (simp add: cache_patched_refl)
next
  case (Cons c cs)
  obtain e1 s1 where r: "reuse_experiment chunk n s = (e1, s1)" by (cases "reuse_experiment chunk n s")
  from reuse_experiment_frame [OF r Cons.prems(2)] obtain qs1 where
    1: "qobjs s1 = Some qs1" "cache_patched chunk qs qs1" "length qs1 = length qs"
       "naughty_mode s1 = naughty_mode s" by blast
  show ?case
  proof (cases e1)
    case (Some e)
    with Cons.prems(1) r have "s' = s1" by simp
    with 1 show ?thesis by simp
  next
    case None
    obtain e2 s2 where p: "patch_experiment c chunk n s1 = (e2, s2)" by (cases "patch_experiment c chunk n s1")
    from patch_experiment_frame [OF p 1(1)] obtain qs2 where
      2: "qobjs s2 = Some qs2" "cache_patched chunk qs1 qs2" "length qs2 = length qs1"
         "naughty_mode s2 = naughty_mode s1" by blast
    note t = cache_patched_trans [OF 1(2) 2(2)]
    show ?thesis
    proof (cases e2)
      case (Some e)
      with Cons.prems(1) r None p have "s' = s2" by simp
      with 1 2 t show ?thesis by simp
    next
      case None2: None
      with Cons.prems(1) r None p have "load_circuits cs chunk (Suc n) s2 = (err, s')" by simp
      from Cons.IH [OF this 2(1)] obtain qs' where
        3: "qobjs s' = Some qs'" "cache_patched chunk qs2 qs'" "length qs' = length qs2"
           "naughty_mode s' = naughty_mode s2" by blast
      from cache_patched_trans [OF t 3(2)] 1 2 3 show ?thesis by simp
    qed
  qed
qed

lemma try_loading_cached: "qobjs s = Some qs \<Longrightarrow> try_loading_cache_from_file s = (None, s)"
  by (simp add: try_loading_cache_from_file_def split: option.splits)

lemma load_qobj_from_cache_frame:
  assumes "load_qobj_from_cache circuits chunk s = (r, s')" "qobjs s = Some qs"
  shows "\<exists>qs'. qobjs s' = Some qs' \<and> cache_patched chunk qs qs'
           \<and> (chunk < length qs \<longrightarrow> length qs' = length qs)
           \<and> (\<forall>job. r = Inr job \<longrightarrow> chunk < length qs' \<and> qobj_id job = qobj_id (qs' ! chunk)
                 \<and> experiments job = take (length circuits) (experiments (qs' ! chunk)))"
proof -
  note tl = try_loading_cached [OF assms(2)]
  obtain e2 s2 where rc: "reuse_chunk chunk s = (e2, s2)" by (cases "reuse_chunk chunk s")
  from reuse_chunk_frame [OF rc assms(2)] obtain qs2 where
    2: "qobjs s2 = Some qs2" "cache_patched chunk qs qs2" "chunk < length qs \<longrightarrow> qs2 = qs" by blast
  show ?thesis
  proof (cases e2)
    case (Some e)
    with assms(1) tl rc have "s' = s2" "r = Inl e" by (simp_all add: load_qobj_from_cache_def)
    with 2 show ?thesis by auto
  next
    case None
    obtain e3 s3 where lc: "load_circuits circuits chunk 0 s2 = (e3, s3)"
      by (cases "load_circuits circuits chunk 0 s2")
    from load_circuits_frame [OF lc 2(1)] obtain qs3 where
      3: "qobjs s3 = Some qs3" "cache_patched chunk qs2 qs3" "length qs3 = length qs2" by blast
    note t = cache_patched_trans [OF 2(2) 3(2)]
    show ?thesis
    proof (cases e3)
      case (Some e)
      with assms(1) tl rc None lc have "s' = s3" "r = Inl e" by (simp_all add: load_qobj_from_cache_def)
      with 2 3 t show ?thesis by auto
    next
      case None3: None
      with assms(1) tl rc None lc have "s' = s3" "r = exec_qobj circuits chunk s3"
        by (auto simp: load_qobj_from_cache_def)
      with 2 3 t show ?thesis
        by (auto simp: exec_qobj_def deepcopy_def split: if_splits)
    qed
  qed
qed

subsection \<open>What the loop of \<open>load_qobj_from_cache\<close> writes\<close>

lemma reuse_experiment_noop:
  "qobjs s = Some qs \<Longrightarrow> chunk < length qs \<Longrightarrow> n < length (experiments (qs ! chunk)) \<Longrightarrow>
     reuse_experiment chunk n s = (None, s)"
proof (cases "try_reusing_qobjs s \<and> chunk = 0 \<and> n > 0")
  case False
  then show ?thesis by (auto simp: reuse_experiment_def)
next
  case True
  assume a: "qobjs s = Some qs" "chunk < length qs" "n < length (experiments (qs ! chunk))"
  from True have c: "chunk = 0" by blast
  from a show ?thesis unfolding c by (simp add: reuse_experiment_def)
qed

lemma patch_experiment_other:
  assumes "patch_experiment c chunk n s = (err, s')" "qobjs s = Some qs" "chunk < length qs"
  shows "\<exists>qs'. qobjs s' = Some qs' \<and> length qs' = length qs
      \<and> length (experiments (qs' ! chunk)) = length (experiments (qs ! chunk))
      \<and> (\<forall>m. m \<noteq> n \<longrightarrow> experiments (qs' ! chunk) ! m = experiments (qs ! chunk) ! m)
      \<and> mappings s' = mappings s"
proof (cases "n < length (experiments (qs ! chunk))")
  case False
  with assms have "s' = s" by (auto simp: patch_experiment_def split: if_splits)
  with assms(2) show ?thesis by simp
next
  case True
  with assms show ?thesis
    by (auto simp: patch_experiment_def Let_def split: prod.splits)
qed

lemma reuse_chunk_noop:
  "qobjs s = Some qs \<Longrightarrow> chunk < length qs \<Longrightarrow> reuse_chunk chunk s = (None, s)"
  by (simp add: reuse_chunk_def)

lemma reuse_chunk_next:
  assumes "try_reusing_qobjs s" "qobjs s = Some qs" "mappings s = Some ms"
    and "qs \<noteq> []" "ms \<noteq> []" "chunk = length qs"
  shows "reuse_chunk chunk s
     = (None, s\<lparr>mappings := Some (list_insert chunk (ms ! 0) ms), qobjs := Some (qs @ [qs ! 0])\<rparr>)"
  using assms by (simp add: reuse_chunk_def Let_def list_insert_end deepcopy_def)

lemma reuse_experiment_next:
  assumes "try_reusing_qobjs t" "qobjs t = Some ps" "mappings t = Some ns"
    and "ps \<noteq> []" "ns \<noteq> []" "0 < n" "n = length (experiments (ps ! 0))" "ns ! 0 \<noteq> []"
  shows "reuse_experiment 0 n t
     = (None, t\<lparr>qobjs := Some (ps[0 := (ps ! 0)\<lparr>experiments :=
                    experiments (ps ! 0) @ [experiments (ps ! 0) ! 0]\<rparr>]),
                mappings := Some (ns[0 := list_insert n (ns ! 0 ! 0) (ns ! 0)])\<rparr>)"
proof -
  from assms(6,7) have "experiments (ps ! 0) \<noteq> []" by auto
  with assms show ?thesis
    by (simp add: reuse_experiment_def Let_def list_insert_end deepcopy_def)
qed

lemma patch_gates_length:
  "patch_gates ms chunk n raw j ins = (r, ins') \<Longrightarrow> length ins' = length ins"
  using patch_gates_patched [THEN list_all2_lengthD] by fastforce

lemma patch_gates_success:
  "patch_gates ms chunk n raw j ins = (None, ins') \<Longrightarrow> i < length ins \<Longrightarrow>
     instr_written ms chunk n raw (j + i) (ins' ! i)
     \<and> instr_name (ins' ! i) = instr_name (ins ! i)
     \<and> params_len (ins' ! i) = params_len (ins ! i)
     \<and> (instr_name (ins ! i) = ''snapshot'' \<or> patchable ms chunk n raw (j + i) (ins ! i))"
proof (induction ins arbitrary: j i ins')
  case Nil
  then show ?case by simp
next
  case (Cons c ins)
  obtain e r where r: "patch_gates ms chunk n raw (Suc j) ins = (e, r)"
    by (cases "patch_gates ms chunk n raw (Suc j) ins")
  show ?case
  proof (cases "instr_name c = ''snapshot''")
    case True
    with Cons.prems(1) r have e: "e = None" and i': "ins' = c # r" by simp_all
    show ?thesis
    proof (cases i)
      case 0
      with True i' show ?thesis by (simp add: instr_written_def)
    next
      case (Suc k)
      with Cons.prems(2) have "k < length ins" by simp
      from Cons.IH [OF r [unfolded e] this] Suc i' show ?thesis by simp
    qed
  next
    case False
    from Cons.prems(1) False r obtain idx where
      m: "mapping_at ms chunk n j = Inr idx" "idx < length raw"
         "params_len c = length (param (raw ! idx))" "instr_name c = gate_name (raw ! idx)"
      and e: "e = None"
      and i': "ins' = c\<lparr>params := Some (float_list (param (raw ! idx)))\<rparr> # r"
      by (auto simp: Let_def split: sum.splits if_splits option.splits)
    show ?thesis
    proof (cases i)
      case 0
      with m i' show ?thesis
        by (simp add: instr_written_def patchable_def params_len_def float_list_def)
    next
      case (Suc k)
      with Cons.prems(2) have "k < length ins" by simp
      from Cons.IH [OF r [unfolded e] this] Suc i' show ?thesis by simp
    qed
  qed
qed

lemma patch_gates_failure:
  "patch_gates ms chunk n raw j ins = (Some e, ins') \<Longrightarrow>
     \<exists>k<length ins.
        (\<forall>i<k. instr_written ms chunk n raw (j + i) (ins' ! i)
                \<and> instr_name (ins' ! i) = instr_name (ins ! i)
                \<and> params_len (ins' ! i) = params_len (ins ! i)
                \<and> (instr_name (ins ! i) = ''snapshot'' \<or> patchable ms chunk n raw (j + i) (ins ! i)))
        \<and> (\<forall>i<length ins. k \<le> i \<longrightarrow> ins' ! i = ins ! i)
        \<and> instr_name (ins ! k) \<noteq> ''snapshot''
        \<and> \<not> patchable ms chunk n raw (j + k) (ins ! k)"
proof (induction ins arbitrary: j ins')
  case Nil
  then show ?case by simp
next
  case (Cons c ins)
  obtain e2 r where r: "patch_gates ms chunk n raw (Suc j) ins = (e2, r)"
    by (cases "patch_gates ms chunk n raw (Suc j) ins")
  let ?P = "\<lambda>k. (\<forall>i<k. instr_written ms chunk n raw (j + i) (ins' ! i)
                \<and> instr_name (ins' ! i) = instr_name ((c # ins) ! i)
                \<and> params_len (ins' ! i) = params_len ((c # ins) ! i)
                \<and> (instr_name ((c # ins) ! i) = ''snapshot''
                    \<or> patchable ms chunk n raw (j + i) ((c # ins) ! i)))
        \<and> (\<forall>i<length (c # ins). k \<le> i \<longrightarrow> ins' ! i = (c # ins) ! i)
        \<and> instr_name ((c # ins) ! k) \<noteq> ''snapshot''
        \<and> \<not> patchable ms chunk n raw (j + k) ((c # ins) ! k)"
  have step: "?P (Suc k)" if k: "k < length ins"
    and h: "instr_written ms chunk n raw j (ins' ! 0)" "instr_name (ins' ! 0) = instr_name c"
       "params_len (ins' ! 0) = params_len c"
       "instr_name c = ''snapshot'' \<or> patchable ms chunk n raw j c"
    and t: "tl ins' = r" "ins' \<noteq> []"
    and ih: "(\<forall>i<k. instr_written ms chunk n raw (Suc j + i) (r ! i)
                \<and> instr_name (r ! i) = instr_name (ins ! i)
                \<and> params_len (r ! i) = params_len (ins ! i)
                \<and> (instr_name (ins ! i) = ''snapshot'' \<or> patchable ms chunk n raw (Suc j + i) (ins ! i)))
        \<and> (\<forall>i<length ins. k \<le> i \<longrightarrow> r ! i = ins ! i)
        \<and> instr_name (ins ! k) \<noteq> ''snapshot''
        \<and> \<not> patchable ms chunk n raw (Suc j + k) (ins ! k)" for k
  proof -
    from t obtain a where a: "ins' = a # r" by (cases ins') auto
    have 1: "instr_written ms chunk n raw (j + i) (ins' ! i)
                \<and> instr_name (ins' ! i) = instr_name ((c # ins) ! i)
                \<and> params_len (ins' ! i) = params_len ((c # ins) ! i)
                \<and> (instr_name ((c # ins) ! i) = ''snapshot''
                    \<or> patchable ms chunk n raw (j + i) ((c # ins) ! i))" if "i < Suc k" for i
    proof (cases i)
      case 0
      with h show ?thesis by simp
    next
      case (Suc i')
      with that have "i' < k" by simp
      with ih Suc a show ?thesis by simp
    qed
    have 2: "ins' ! i = (c # ins) ! i" if "i < length (c # ins)" "Suc k \<le> i" for i
    proof -
      from that obtain i' where i': "i = Suc i'" "i' < length ins" "k \<le> i'" by (cases i) auto
      with ih a show ?thesis by simp
    qed
    from 1 2 ih show ?thesis by simp
  qed
  show ?case
  proof (cases "instr_name c = ''snapshot''")
    case True
    with Cons.prems r have e: "e2 = Some e" and i': "ins' = c # r" by simp_all
    from Cons.IH [OF r [unfolded e]] obtain k where k: "k < length ins"
      and ih: "(\<forall>i<k. instr_written ms chunk n raw (Suc j + i) (r ! i)
                \<and> instr_name (r ! i) = instr_name (ins ! i)
                \<and> params_len (r ! i) = params_len (ins ! i)
                \<and> (instr_name (ins ! i) = ''snapshot'' \<or> patchable ms chunk n raw (Suc j + i) (ins ! i)))
        \<and> (\<forall>i<length ins. k \<le> i \<longrightarrow> r ! i = ins ! i)
        \<and> instr_name (ins ! k) \<noteq> ''snapshot''
        \<and> \<not> patchable ms chunk n raw (Suc j + k) (ins ! k)" by blast
    have "?P (Suc k)"
      by (rule step [OF k _ _ _ _ _ _ ih]) (simp_all add: i' True instr_written_def)
    with k show ?thesis by (intro exI [of _ "Suc k"]) simp
  next
    case False
    show ?thesis
    proof (cases "patchable ms chunk n raw j c")
      case np: False
      with Cons.prems False have "ins' = c # ins"
        by (auto simp: patchable_def Let_def split: sum.splits if_splits option.splits prod.splits)
      with False np have "?P 0" by simp
      then show ?thesis by (intro exI [of _ 0]) simp
    next
      case True
      then obtain idx where
        m: "mapping_at ms chunk n j = Inr idx" "idx < length raw"
           "params_len c = length (param (raw ! idx))" "instr_name c = gate_name (raw ! idx)"
        by (auto simp: patchable_def split: sum.splits)
      with Cons.prems False r have e: "e2 = Some e"
        and i': "ins' = c\<lparr>params := Some (float_list (param (raw ! idx)))\<rparr> # r"
        by (simp_all add: Let_def)
      from Cons.IH [OF r [unfolded e]] obtain k where k: "k < length ins"
        and ih: "(\<forall>i<k. instr_written ms chunk n raw (Suc j + i) (r ! i)
                \<and> instr_name (r ! i) = instr_name (ins ! i)
                \<and> params_len (r ! i) = params_len (ins ! i)
                \<and> (instr_name (ins ! i) = ''snapshot'' \<or> patchable ms chunk n raw (Suc j + i) (ins ! i)))
        \<and> (\<forall>i<length ins. k \<le> i \<longrightarrow> r ! i = ins ! i)
        \<and> instr_name (ins ! k) \<noteq> ''snapshot''
        \<and> \<not> patchable ms chunk n raw (Suc j + k) (ins ! k)" by blast
      have "?P (Suc k)"
        by (rule step [OF k _ _ _ _ _ _ ih])
           (simp_all add: i' True m m(3) [unfolded params_len_def] instr_written_def params_len_def float_list_def)
      with k show ?thesis by (intro exI [of _ "Suc k"]) simp
    qed
  qed
qed

lemma chunks_length: "chunk < length (chunks s) \<Longrightarrow> qobjs s = Some (chunks s)"
  by (cases "qobjs s") (simp_all add: chunks_def)

lemma patch_experiment_slot:
  assumes "patch_experiment c chunk n s = (r, s')" "qobjs s = Some qs" "chunk < length qs"
    and "n < length (experiments (qs ! chunk))"
  shows "patch_gates (mappings s) chunk n (raw_gates c) 0 (instructions (slot s chunk n))
           = (r, instructions (slot s' chunk n))
     \<and> chunk < length (chunks s')
     \<and> length (experiments (chunks s' ! chunk)) = length (experiments (qs ! chunk))
     \<and> header_name (header (slot s' chunk n)) = circ_name c
     \<and> mappings s' = mappings s"
  using assms
  by (auto simp: patch_experiment_def slot_def chunks_def Let_def split: prod.splits)

lemma patch_experiment_None:
  assumes "patch_experiment c chunk n s = (None, s')"
  shows "\<exists>qs. qobjs s = Some qs \<and> chunk < length qs \<and> n < length (experiments (qs ! chunk))"
  using assms
  by (auto simp: patch_experiment_def split: option.splits if_splits)

lemma patch_experiment_success:
  assumes "patch_experiment c chunk n s = (None, s')"
  shows "holds_circuit c chunk n s'"
    and "length (instructions (slot s' chunk n)) = length (instructions (slot s chunk n))"
    and "j < length (instructions (slot s chunk n)) \<Longrightarrow>
           instr_name (instructions (slot s' chunk n) ! j) = instr_name (instructions (slot s chunk n) ! j)
           \<and> params_len (instructions (slot s' chunk n) ! j) = params_len (instructions (slot s chunk n) ! j)
           \<and> (instr_name (instructions (slot s chunk n) ! j) = ''snapshot''
               \<or> patchable (mappings s) chunk n (raw_gates c) j (instructions (slot s chunk n) ! j))"
proof -
  from patch_experiment_None [OF assms] obtain qs where
    q: "qobjs s = Some qs" "chunk < length qs" "n < length (experiments (qs ! chunk))" by blast
  note p = patch_experiment_slot [OF assms q]
  from p have pg: "patch_gates (mappings s) chunk n (raw_gates c) 0 (instructions (slot s chunk n))
           = (None, instructions (slot s' chunk n))" by simp
  from patch_gates_length [OF pg]
  show l: "length (instructions (slot s' chunk n)) = length (instructions (slot s chunk n))" .
  from patch_gates_success [OF pg] p l q(3)
  show "holds_circuit c chunk n s'"
    by (simp add: holds_circuit_def)
  show "instr_name (instructions (slot s' chunk n) ! j) = instr_name (instructions (slot s chunk n) ! j)
           \<and> params_len (instructions (slot s' chunk n) ! j) = params_len (instructions (slot s chunk n) ! j)
           \<and> (instr_name (instructions (slot s chunk n) ! j) = ''snapshot''
               \<or> patchable (mappings s) chunk n (raw_gates c) j (instructions (slot s chunk n) ! j))"
    if "j < length (instructions (slot s chunk n))"
    using patch_gates_success [OF pg that] by simp
qed

lemma patch_experiment_raises:
  assumes "patch_experiment c chunk n s = (Some e, s')" "qobjs s = Some qs" "chunk < length qs"
    and "n < length (experiments (qs ! chunk))"
  shows "\<exists>g'. raised_at c chunk n g' s'
     \<and> (\<forall>j<g'. instr_name (instructions (slot s chunk n) ! j) = ''snapshot''
               \<or> patchable (mappings s) chunk n (raw_gates c) j (instructions (slot s chunk n) ! j))"
proof -
  note p = patch_experiment_slot [OF assms]
  from p have pg: "patch_gates (mappings s) chunk n (raw_gates c) 0 (instructions (slot s chunk n))
           = (Some e, instructions (slot s' chunk n))" by simp
  note l = patch_gates_length [OF pg]
  from patch_gates_failure [OF pg] obtain k where k: "k < length (instructions (slot s chunk n))"
    and w: "\<And>i. i < k \<Longrightarrow> instr_written (mappings s) chunk n (raw_gates c) i (instructions (slot s' chunk n) ! i)"
    and a: "\<And>i. i < k \<Longrightarrow> instr_name (instructions (slot s chunk n) ! i) = ''snapshot''
               \<or> patchable (mappings s) chunk n (raw_gates c) i (instructions (slot s chunk n) ! i)"
    and u: "instructions (slot s' chunk n) ! k = instructions (slot s chunk n) ! k"
    and f: "instr_name (instructions (slot s chunk n) ! k) \<noteq> ''snapshot''"
       "\<not> patchable (mappings s) chunk n (raw_gates c) k (instructions (slot s chunk n) ! k)"
    by auto
  from k w u f p l assms(4) have "raised_at c chunk n k s'"
    by (simp add: raised_at_def)
  with a show ?thesis by blast
qed

lemma patch_experiment_mismatch_at:
  assumes "qobjs s = Some qs" "chunk < length qs" "n < length (experiments (qs ! chunk))"
    and "g < length (instructions (slot s chunk n))"
    and "instr_name (instructions (slot s chunk n) ! g) \<noteq> ''snapshot''"
    and "\<not> patchable (mappings s) chunk n (raw_gates c) g (instructions (slot s chunk n) ! g)"
  shows "\<exists>e s' g'. patch_experiment c chunk n s = (Some e, s') \<and> g' \<le> g \<and> raised_at c chunk n g' s'"
proof -
  obtain r s' where p: "patch_experiment c chunk n s = (r, s')"
    by (cases "patch_experiment c chunk n s")
  show ?thesis
  proof (cases r)
    case None
    with p patch_experiment_success(3) [of c chunk n s s' g] assms(4-6) show ?thesis by simp
  next
    case (Some e)
    from patch_experiment_raises [OF p [unfolded Some] assms(1-3)] obtain g' where
      g': "raised_at c chunk n g' s'"
        "\<And>j. j < g' \<Longrightarrow> instr_name (instructions (slot s chunk n) ! j) = ''snapshot''
               \<or> patchable (mappings s) chunk n (raw_gates c) j (instructions (slot s chunk n) ! j)"
      by blast
    from g'(2) [of g] assms(5,6) have "g' \<le> g" by (cases "g < g'") auto
    with p Some g'(1) show ?thesis by blast
  qed
qed

lemma holds_circuit_cong:
  assumes "holds_circuit c chunk m s" "chunk < length (chunks s')"
    and "m < length (experiments (chunks s' ! chunk))"
    and "slot s' chunk m = slot s chunk m"
    and "\<And>g. g < length (instructions (slot s chunk m)) \<Longrightarrow>
            instr_written (mappings s) chunk m (raw_gates c) g (instructions (slot s chunk m) ! g) \<Longrightarrow>
            instr_written (mappings s') chunk m (raw_gates c) g (instructions (slot s chunk m) ! g)"
  shows "holds_circuit c chunk m s'"
  using assms by (simp add: holds_circuit_def)

lemma patch_experiment_holds:
  assumes "patch_experiment c' chunk n s = (r, s')" "m \<noteq> n" "holds_circuit c chunk m s"
  shows "holds_circuit c chunk m s'"
proof -
  from assms(3) have cl: "chunk < length (chunks s)" and ml: "m < length (experiments (chunks s ! chunk))"
    by (simp_all add: holds_circuit_def)
  note q = chunks_length [OF cl]
  from patch_experiment_other [OF assms(1) q cl] obtain qs' where
    o: "qobjs s' = Some qs'" "length qs' = length (chunks s)"
       "length (experiments (qs' ! chunk)) = length (experiments (chunks s ! chunk))"
       "\<And>k. k \<noteq> n \<Longrightarrow> experiments (qs' ! chunk) ! k = experiments (chunks s ! chunk) ! k"
       "mappings s' = mappings s"
    by blast
  show ?thesis
  proof (rule holds_circuit_cong [OF assms(3)])
    show "chunk < length (chunks s')" using o cl by (simp add: chunks_def)
    show "m < length (experiments (chunks s' ! chunk))" using o ml by (simp add: chunks_def)
    show "slot s' chunk m = slot s chunk m" using o(1) o(4) [OF assms(2)] by (simp add: slot_def chunks_def)
    show "instr_written (mappings s') chunk m (raw_gates c) g (instructions (slot s chunk m) ! g)"
      if "instr_written (mappings s) chunk m (raw_gates c) g (instructions (slot s chunk m) ! g)" for g
      using that o(5) by simp
  qed
qed

lemma reuse_experiment_cases:
  assumes "reuse_experiment chunk n s = (r, s')"
  shows "s' = s
     \<or> (\<exists>qs. chunk = 0 \<and> 0 < n \<and> try_reusing_qobjs s \<and> qobjs s = Some qs \<and> qs \<noteq> []
           \<and> length (experiments (qs ! 0)) \<le> n \<and> experiments (qs ! 0) \<noteq> []
           \<and> qobjs s' = Some (qs[0 := (qs ! 0)\<lparr>experiments :=
                 experiments (qs ! 0) @ [experiments (qs ! 0) ! 0]\<rparr>])
           \<and> try_reusing_qobjs s' = try_reusing_qobjs s
           \<and> (mappings s' = mappings s \<and> r \<noteq> None
               \<or> (\<exists>ms. mappings s = Some ms \<and> ms \<noteq> [] \<and> ms ! 0 \<noteq> [] \<and> r = None
                     \<and> mappings s' = Some (ms[0 := list_insert n (ms ! 0 ! 0) (ms ! 0)]))))"
proof (cases "try_reusing_qobjs s \<and> chunk = 0 \<and> 0 < n")
  case False
  with assms show ?thesis by (auto simp: reuse_experiment_def)
next
  case True
  then have c: "chunk = 0" by blast
  show ?thesis
  proof (cases "qobjs s")
    case None
    with assms True show ?thesis by (auto simp: reuse_experiment_def)
  next
    case (Some qs)
    show ?thesis
    proof (cases "qs \<noteq> [] \<and> length (experiments (qs ! 0)) \<le> n \<and> experiments (qs ! 0) \<noteq> []")
      case False
      with assms True Some show ?thesis
        unfolding c by (auto simp: reuse_experiment_def split: if_splits)
    next
      case t: True
      with assms True Some show ?thesis
        unfolding c
        by (auto simp: reuse_experiment_def Let_def list_insert_end deepcopy_def
              split: if_splits option.splits)
    qed
  qed
qed

lemma instr_written_insert:
  assumes "m < n" "instr_written (Some ms) 0 m raw g c" "ms \<noteq> []"
  shows "instr_written (Some (ms[0 := list_insert n x (ms ! 0)])) 0 m raw g c"
  using assms
  by (auto simp: instr_written_def mapping_at_def list_insert_length list_insert_nth_before
        split: if_splits sum.splits)

lemma reuse_experiment_holds:
  assumes "reuse_experiment chunk n s = (r, s')" "m < n" "holds_circuit c chunk m s"
  shows "holds_circuit c chunk m s'"
proof (cases "s' = s")
  case True
  with assms(3) show ?thesis by simp
next
  case False
  from assms(3) have cl: "chunk < length (chunks s)" and ml: "m < length (experiments (chunks s ! chunk))"
    by (simp_all add: holds_circuit_def)
  from reuse_experiment_cases [OF assms(1)] False obtain qs where
    c: "chunk = 0" and q: "qobjs s = Some qs" and ne: "qs \<noteq> []"
    and q': "qobjs s' = Some (qs[0 := (qs ! 0)\<lparr>experiments :=
                 experiments (qs ! 0) @ [experiments (qs ! 0) ! 0]\<rparr>])"
    and mp: "mappings s' = mappings s
               \<or> (\<exists>ms. mappings s = Some ms \<and> ms \<noteq> []
                     \<and> mappings s' = Some (ms[0 := list_insert n (ms ! 0 ! 0) (ms ! 0)]))"
    by blast
  from q have cs: "chunks s = qs" by (simp add: chunks_def)
  from q' have cs': "chunks s' = qs[0 := (qs ! 0)\<lparr>experiments :=
                 experiments (qs ! 0) @ [experiments (qs ! 0) ! 0]\<rparr>]" by (simp add: chunks_def)
  show ?thesis
  proof (rule holds_circuit_cong [OF assms(3)])
    show "chunk < length (chunks s')" using cs' ne c by simp
    show "m < length (experiments (chunks s' ! chunk))" using cs' cs ml ne c by simp
    show "slot s' chunk m = slot s chunk m"
      using cs' cs ml ne c by (simp add: slot_def nth_append)
    show "instr_written (mappings s') chunk m (raw_gates c) g (instructions (slot s chunk m) ! g)"
      if w: "instr_written (mappings s) chunk m (raw_gates c) g (instructions (slot s chunk m) ! g)" for g
    proof (cases "mappings s' = mappings s")
      case True
      with w show ?thesis by simp
    next
      case False
      with mp obtain ms where ms: "mappings s = Some ms" "ms \<noteq> []"
          "mappings s' = Some (ms[0 := list_insert n (ms ! 0 ! 0) (ms ! 0)])" by blast
      from instr_written_insert [OF assms(2) w [unfolded ms(1) c] ms(2)] ms(3) c
      show ?thesis by simp
    qed
  qed
qed

lemma load_circuits_holds:
  "load_circuits cs chunk (length pre) s = (None, s') \<Longrightarrow>
   (\<forall>m<length pre. holds_circuit ((pre @ cs) ! m) chunk m s) \<Longrightarrow>
   (\<forall>m<length (pre @ cs). holds_circuit ((pre @ cs) ! m) chunk m s')"
proof (induction cs arbitrary: pre s)
  case Nil
  then show ?case by simp
next
  case (Cons c cs)
  obtain e1 s1 where r: "reuse_experiment chunk (length pre) s = (e1, s1)"
    by (cases "reuse_experiment chunk (length pre) s")
  obtain e2 s2 where p: "patch_experiment c chunk (length pre) s1 = (e2, s2)"
    by (cases "patch_experiment c chunk (length pre) s1")
  from Cons.prems(1) r p have e: "e1 = None" "e2 = None"
    and l: "load_circuits cs chunk (length (pre @ [c])) s2 = (None, s')"
    by (auto split: option.splits)
  have "holds_circuit (((pre @ [c]) @ cs) ! m) chunk m s2" if "m < length (pre @ [c])" for m
  proof (cases "m < length pre")
    case True
    with Cons.prems(2) have "holds_circuit ((pre @ c # cs) ! m) chunk m s" by simp
    from reuse_experiment_holds [OF r True this] have "holds_circuit ((pre @ c # cs) ! m) chunk m s1" .
    from patch_experiment_holds [OF p _ this] True show ?thesis by simp
  next
    case False
    with that have m: "m = length pre" by simp
    from patch_experiment_success(1) [OF p [unfolded e]] show ?thesis unfolding m by simp
  qed
  with Cons.IH [OF l] show ?case by simp
qed

lemma load_circuits_raises_cached:
  assumes "qobjs s = Some qs" "chunk < length qs" "n < length (experiments (qs ! chunk))"
    and "length pre \<le> n" "n < length (pre @ cs)"
    and "g < length (instructions (slot s chunk n))"
    and "instr_name (instructions (slot s chunk n) ! g) \<noteq> ''snapshot''"
    and "\<not> patchable (mappings s) chunk n (raw_gates ((pre @ cs) ! n)) g (instructions (slot s chunk n) ! g)"
    and "\<forall>m<length pre. holds_circuit ((pre @ cs) ! m) chunk m s"
  shows "\<exists>e s'. load_circuits cs chunk (length pre) s = (Some e, s')
     \<and> (\<exists>n' g'. (n' < n \<or> n' = n \<and> g' \<le> g)
           \<and> (\<forall>m<n'. holds_circuit ((pre @ cs) ! m) chunk m s')
           \<and> raised_at ((pre @ cs) ! n') chunk n' g' s')"
  using assms
proof (induction cs arbitrary: pre s qs)
  case Nil
  then show ?case by simp
next
  case (Cons c cs)
  let ?n0 = "length pre"
  from Cons.prems(3,4) have n0: "?n0 < length (experiments (qs ! chunk))" by simp
  note r = reuse_experiment_noop [OF Cons.prems(1,2) n0]
  obtain e2 s2 where p: "patch_experiment c chunk ?n0 s = (e2, s2)"
    by (cases "patch_experiment c chunk ?n0 s")
  have inv: "holds_circuit ((pre @ c # cs) ! m) chunk m s2" if "m < ?n0" for m
    using patch_experiment_holds [OF p _ Cons.prems(9) [rule_format, OF that]] that by simp
  show ?case
  proof (cases "?n0 = n")
    case True
    from patch_experiment_mismatch_at [OF Cons.prems(1,2) n0, of g c] Cons.prems(6,7,8) True
    obtain e s' g' where f: "patch_experiment c chunk ?n0 s = (Some e, s')" "g' \<le> g"
      "raised_at c chunk ?n0 g' s'" by auto
    from f(1) p have s2: "s2 = s'" "e2 = Some e" by simp_all
    from f(1) r have "load_circuits (c # cs) chunk ?n0 s = (Some e, s')" by simp
    moreover from inv s2 True have "\<forall>m<n. holds_circuit ((pre @ c # cs) ! m) chunk m s'" by simp
    moreover from f(3) True have "raised_at ((pre @ c # cs) ! n) chunk n g' s'" by auto
    ultimately show ?thesis using f(2) by blast
  next
    case False
    with Cons.prems(4) have lt: "?n0 < n" by simp
    show ?thesis
    proof (cases e2)
      case (Some e)
      from patch_experiment_raises [OF p [unfolded Some] Cons.prems(1,2) n0] obtain g' where
        "raised_at c chunk ?n0 g' s2" by blast
      then have "raised_at ((pre @ c # cs) ! ?n0) chunk ?n0 g' s2" by simp
      moreover from p r Some have "load_circuits (c # cs) chunk ?n0 s = (Some e, s2)" by simp
      ultimately show ?thesis using lt inv by blast
    next
      case None
      from patch_experiment_other [OF p Cons.prems(1,2)] obtain qs2 where
        2: "qobjs s2 = Some qs2" "length qs2 = length qs"
           "length (experiments (qs2 ! chunk)) = length (experiments (qs ! chunk))"
           "\<And>m. m \<noteq> ?n0 \<Longrightarrow> experiments (qs2 ! chunk) ! m = experiments (qs ! chunk) ! m"
           "mappings s2 = mappings s"
        by blast
      from 2(1) 2(4) [of n] lt Cons.prems(1) have same: "slot s2 chunk n = slot s chunk n"
        by (simp add: slot_def chunks_def)
      have "\<exists>e s'. load_circuits cs chunk (length (pre @ [c])) s2 = (Some e, s')
         \<and> (\<exists>n' g'. (n' < n \<or> n' = n \<and> g' \<le> g)
           \<and> (\<forall>m<n'. holds_circuit (((pre @ [c]) @ cs) ! m) chunk m s')
           \<and> raised_at (((pre @ [c]) @ cs) ! n') chunk n' g' s')"
      proof (rule Cons.IH [OF 2(1)])
        show "chunk < length qs2" using 2(2) Cons.prems(2) by simp
        show "n < length (experiments (qs2 ! chunk))" using 2(3) Cons.prems(3) by simp
        show "length (pre @ [c]) \<le> n" using lt by simp
        show "n < length ((pre @ [c]) @ cs)" using Cons.prems(5) by simp
        show "g < length (instructions (slot s2 chunk n))" unfolding same by (rule Cons.prems(6))
        show "instr_name (instructions (slot s2 chunk n) ! g) \<noteq> ''snapshot''"
          unfolding same by (rule Cons.prems(7))
        show "\<not> patchable (mappings s2) chunk n (raw_gates (((pre @ [c]) @ cs) ! n)) g
                 (instructions (slot s2 chunk n) ! g)"
          unfolding same 2(5) using Cons.prems(8) by simp
        show "\<forall>m<length (pre @ [c]). holds_circuit (((pre @ [c]) @ cs) ! m) chunk m s2"
        proof (intro allI impI)
          fix m assume "m < length (pre @ [c])"
          then consider "m < ?n0" | "m = ?n0" by fastforce
          then show "holds_circuit (((pre @ [c]) @ cs) ! m) chunk m s2"
          proof cases
            case 1
            from inv [OF this] show ?thesis by simp
          next
            case 2
            from patch_experiment_success(1) [OF p [unfolded None]] show ?thesis unfolding 2 by simp
          qed
        qed
      qed
      with p r None show ?thesis by simp
    qed
  qed
qed

lemma reuse_experiment_step:
  assumes "try_reusing_qobjs s" "qobjs s = Some qs" "mappings s = Some ms" "qs \<noteq> []" "ms \<noteq> []"
    and "experiments (qs ! 0) \<noteq> []" "n0 \<le> length (experiments (qs ! 0))"
    and "length (experiments (qs ! 0)) \<le> length (ms ! 0)"
  shows "\<exists>s1 qs1 ms1. reuse_experiment 0 n0 s = (None, s1) \<and> try_reusing_qobjs s1
     \<and> qobjs s1 = Some qs1 \<and> mappings s1 = Some ms1 \<and> qs1 \<noteq> [] \<and> ms1 \<noteq> []
     \<and> n0 < length (experiments (qs1 ! 0))
     \<and> length (experiments (qs1 ! 0)) \<le> length (ms1 ! 0)
     \<and> (length (experiments (qs1 ! 0)) = length (experiments (qs ! 0))
         \<or> length (experiments (qs1 ! 0)) = Suc n0)
     \<and> slot s1 0 0 = slot s 0 0 \<and> ms1 ! 0 ! 0 = ms ! 0 ! 0
     \<and> (length (experiments (qs ! 0)) \<le> n0 \<longrightarrow> slot s1 0 n0 = slot s 0 0 \<and> ms1 ! 0 ! n0 = ms ! 0 ! 0)"
proof (cases "n0 < length (experiments (qs ! 0))")
  case True
  from assms(4) have "0 < length qs" by simp
  from reuse_experiment_noop [OF assms(2) this True] assms True show ?thesis by simp
next
  case False
  with assms(7) have n0: "n0 = length (experiments (qs ! 0))" by simp
  with assms(6) have pos: "0 < n0" by simp
  from assms(6,8) have m0: "ms ! 0 \<noteq> []" by auto
  let ?qs1 = "qs[0 := (qs ! 0)\<lparr>experiments := experiments (qs ! 0) @ [experiments (qs ! 0) ! 0]\<rparr>]"
  let ?ms1 = "ms[0 := list_insert n0 (ms ! 0 ! 0) (ms ! 0)]"
  let ?s1 = "s\<lparr>qobjs := Some ?qs1, mappings := Some ?ms1\<rparr>"
  from reuse_experiment_next [OF assms(1-5) pos n0 m0]
  have r: "reuse_experiment 0 n0 s = (None, ?s1)" .
  from assms(8) n0 have le: "n0 \<le> length (ms ! 0)" by simp
  from m0 have l0: "0 < length (ms ! 0)" by simp
  have a: "?ms1 ! 0 ! 0 = ms ! 0 ! 0" "?ms1 ! 0 ! n0 = ms ! 0 ! 0"
    "length (?ms1 ! 0) = Suc (length (ms ! 0))"
    using assms(5) pos le l0
    by (simp_all add: list_insert_nth_before list_insert_nth list_insert_length)
  have b: "slot ?s1 0 0 = slot s 0 0" "slot ?s1 0 n0 = slot s 0 0"
    "length (experiments (?qs1 ! 0)) = Suc n0"
    using assms(2,4,6) n0 by (simp_all add: slot_def chunks_def nth_append)
  from r a b assms(1,4,5,8) n0 show ?thesis
    by (intro exI [of _ ?s1] exI [of _ ?qs1] exI [of _ ?ms1]) simp
qed

lemma patchable_shape:
  "patchable ms chunk n raw g c
     = (case mapping_at ms chunk n g of
          Inl e \<Rightarrow> False
        | Inr idx \<Rightarrow> idx < length raw \<and> params_len c = length (param (raw ! idx))
                      \<and> instr_name c = gate_name (raw ! idx))"
  by (simp add: patchable_def)

lemma load_circuits_raises_reused:
  assumes "try_reusing_qobjs s" "qobjs s = Some qs" "mappings s = Some ms" "qs \<noteq> []" "ms \<noteq> []"
    and "experiments (qs ! 0) \<noteq> []"
    and "length pre \<le> length (experiments (qs ! 0))"
    and "length (experiments (qs ! 0)) \<le> n"
    and "length (experiments (qs ! 0)) \<le> length (ms ! 0)"
    and "n < length (pre @ cs)"
    and "g < length (instructions (slot s 0 0))"
    and "instr_name (instructions (slot s 0 0) ! g) = nm" "nm \<noteq> ''snapshot''"
    and "params_len (instructions (slot s 0 0) ! g) = k"
    and "g < length (ms ! 0 ! 0)" "ms ! 0 ! 0 = M"
    and "raw_gates ((pre @ cs) ! n) = R"
    and "\<not> (M ! g < length R \<and> k = length (param (R ! (M ! g))) \<and> nm = gate_name (R ! (M ! g)))"
    and "\<forall>m<length pre. holds_circuit ((pre @ cs) ! m) 0 m s"
  shows "\<exists>e s'. load_circuits cs 0 (length pre) s = (Some e, s')
     \<and> (\<exists>n' g'. (n' < n \<or> n' = n \<and> g' \<le> g)
           \<and> (\<forall>m<n'. holds_circuit ((pre @ cs) ! m) 0 m s')
           \<and> raised_at ((pre @ cs) ! n') 0 n' g' s')"
  using assms
proof (induction cs arbitrary: pre s qs ms)
  case Nil
  then show ?case by simp
next
  case (Cons c cs)
  let ?n0 = "length pre"
  from reuse_experiment_step [OF Cons.prems(1-6) Cons.prems(7) Cons.prems(9)]
  obtain s1 qs1 ms1 where r: "reuse_experiment 0 ?n0 s = (None, s1)"
    and s1: "try_reusing_qobjs s1" "qobjs s1 = Some qs1" "mappings s1 = Some ms1" "qs1 \<noteq> []" "ms1 \<noteq> []"
    and l1: "?n0 < length (experiments (qs1 ! 0))" "length (experiments (qs1 ! 0)) \<le> length (ms1 ! 0)"
       "length (experiments (qs1 ! 0)) = length (experiments (qs ! 0))
         \<or> length (experiments (qs1 ! 0)) = Suc ?n0"
    and k1: "slot s1 0 0 = slot s 0 0" "ms1 ! 0 ! 0 = ms ! 0 ! 0"
    and d1: "length (experiments (qs ! 0)) \<le> ?n0 \<longrightarrow> slot s1 0 ?n0 = slot s 0 0 \<and> ms1 ! 0 ! ?n0 = ms ! 0 ! 0"
    by blast
  from s1(4) have c1: "0 < length qs1" by simp
  obtain e2 s2 where p: "patch_experiment c 0 ?n0 s1 = (e2, s2)"
    by (cases "patch_experiment c 0 ?n0 s1")
  have inv: "holds_circuit ((pre @ c # cs) ! m) 0 m s2" if "m < ?n0" for m
  proof -
    from Cons.prems(19) that have "holds_circuit ((pre @ c # cs) ! m) 0 m s" by simp
    from reuse_experiment_holds [OF r that this] have "holds_circuit ((pre @ c # cs) ! m) 0 m s1" .
    from patch_experiment_holds [OF p _ this] that show ?thesis by simp
  qed
  show ?case
  proof (cases "?n0 = n")
    case True
    with Cons.prems(7,8) have "length (experiments (qs ! 0)) \<le> ?n0" by simp
    with d1 have d: "slot s1 0 ?n0 = slot s 0 0" "ms1 ! 0 ! ?n0 = ms ! 0 ! 0" by simp_all
    from l1 s1(5) d(2) Cons.prems(15,16)
    have ma: "mapping_at (mappings s1) 0 ?n0 g = Inr (M ! g)"
      by (simp add: mapping_at_def s1(3))
    from Cons.prems(17) True have R: "raw_gates c = R" by auto
    have np: "\<not> patchable (mappings s1) 0 ?n0 (raw_gates c) g (instructions (slot s1 0 ?n0) ! g)"
      unfolding patchable_shape ma d(1) R using Cons.prems(12,14,18) by simp
    from patch_experiment_mismatch_at [OF s1(2) c1 l1(1), of g c] np Cons.prems(11,12,13) d(1)
    obtain e s' g' where f: "patch_experiment c 0 ?n0 s1 = (Some e, s')" "g' \<le> g"
      "raised_at c 0 ?n0 g' s'" by auto
    from f(1) p have s2: "s2 = s'" "e2 = Some e" by simp_all
    from f(1) r have "load_circuits (c # cs) 0 ?n0 s = (Some e, s')" by simp
    moreover from inv s2 True have "\<forall>m<n. holds_circuit ((pre @ c # cs) ! m) 0 m s'" by simp
    moreover from f(3) True have "raised_at ((pre @ c # cs) ! n) 0 n g' s'" by auto
    ultimately show ?thesis using f(2) by blast
  next
    case False
    with Cons.prems(7,8) have lt: "?n0 < n" by simp
    show ?thesis
    proof (cases e2)
      case (Some e)
      from patch_experiment_raises [OF p [unfolded Some] s1(2) c1 l1(1)] obtain g' where
        "raised_at c 0 ?n0 g' s2" by blast
      then have "raised_at ((pre @ c # cs) ! ?n0) 0 ?n0 g' s2" by simp
      moreover from p r Some have "load_circuits (c # cs) 0 ?n0 s = (Some e, s2)" by simp
      ultimately show ?thesis using lt inv by blast
    next
      case None
      from patch_experiment_other [OF p s1(2) c1] obtain qs2 where
        2: "qobjs s2 = Some qs2" "length qs2 = length qs1"
           "length (experiments (qs2 ! 0)) = length (experiments (qs1 ! 0))"
           "\<And>m. m \<noteq> ?n0 \<Longrightarrow> experiments (qs2 ! 0) ! m = experiments (qs1 ! 0) ! m"
           "mappings s2 = mappings s1"
        by blast
      from patch_experiment_frame [OF p s1(2)] s1(1) have t2: "try_reusing_qobjs s2" by auto
      have shape: "g < length (instructions (slot s2 0 0))
          \<and> instr_name (instructions (slot s2 0 0) ! g) = nm
          \<and> params_len (instructions (slot s2 0 0) ! g) = k"
      proof (cases "?n0 = 0")
        case True
        from Cons.prems(11) k1(1) have gl: "g < length (instructions (slot s1 0 0))" by simp
        from patch_experiment_success(2) [OF p [unfolded None True]]
          patch_experiment_success(3) [OF p [unfolded None True] gl] gl k1(1) Cons.prems(12,14)
        show ?thesis by simp
      next
        case False
        from 2(1) 2(4) [of 0] False s1(2) have "slot s2 0 0 = slot s1 0 0"
          by (simp add: slot_def chunks_def)
        with k1(1) Cons.prems(11,12,14) show ?thesis by simp
      qed
      have "\<exists>e s'. load_circuits cs 0 (length (pre @ [c])) s2 = (Some e, s')
         \<and> (\<exists>n' g'. (n' < n \<or> n' = n \<and> g' \<le> g)
           \<and> (\<forall>m<n'. holds_circuit (((pre @ [c]) @ cs) ! m) 0 m s')
           \<and> raised_at (((pre @ [c]) @ cs) ! n') 0 n' g' s')"
      proof (rule Cons.IH [OF t2 2(1) 2(5) [unfolded s1(3)]])
        show "qs2 \<noteq> []" using 2(2) s1(4) by auto
        show "ms1 \<noteq> []" by (rule s1(5))
        show "experiments (qs2 ! 0) \<noteq> []" using 2(3) l1(1) by auto
        show "length (pre @ [c]) \<le> length (experiments (qs2 ! 0))" using 2(3) l1(1) by simp
        show "length (experiments (qs2 ! 0)) \<le> n" using 2(3) l1(3) lt Cons.prems(8) by auto
        show "length (experiments (qs2 ! 0)) \<le> length (ms1 ! 0)" using 2(3) l1(2) by simp
        show "n < length ((pre @ [c]) @ cs)" using Cons.prems(10) by simp
        show "g < length (instructions (slot s2 0 0))" using shape by simp
        show "instr_name (instructions (slot s2 0 0) ! g) = nm" using shape by simp
        show "nm \<noteq> ''snapshot''" by (rule Cons.prems(13))
        show "params_len (instructions (slot s2 0 0) ! g) = k" using shape by simp
        show "g < length (ms1 ! 0 ! 0)" using k1(2) Cons.prems(15) by simp
        show "ms1 ! 0 ! 0 = M" using k1(2) Cons.prems(16) by simp
        show "raw_gates (((pre @ [c]) @ cs) ! n) = R" using Cons.prems(17) by simp
        show "\<not> (M ! g < length R \<and> k = length (param (R ! (M ! g))) \<and> nm = gate_name (R ! (M ! g)))"
          by (rule Cons.prems(18))
        show "\<forall>m<length (pre @ [c]). holds_circuit (((pre @ [c]) @ cs) ! m) 0 m s2"
        proof (intro allI impI)
          fix m assume "m < length (pre @ [c])"
          then consider "m < ?n0" | "m = ?n0" by fastforce
          then show "holds_circuit (((pre @ [c]) @ cs) ! m) 0 m s2"
          proof cases
            case 1
            from inv [OF this] show ?thesis by simp
          next
            case 2
            from patch_experiment_success(1) [OF p [unfolded None]] show ?thesis unfolding 2 by simp
          qed
        qed
      qed
      with p r None show ?thesis by simp
    qed
  qed
qed

lemma load_circuits_cached_mappings:
  "load_circuits cs chunk n0 s = (r, s') \<Longrightarrow> qobjs s = Some qs \<Longrightarrow> chunk < length qs \<Longrightarrow>
     n0 + length cs \<le> length (experiments (qs ! chunk)) \<Longrightarrow> mappings s' = mappings s"
proof (induction cs arbitrary: n0 s qs)
  case Nil
  then show ?case by simp
next
  case (Cons c cs)
  from Cons.prems(4) have n0: "n0 < length (experiments (qs ! chunk))" by simp
  note r = reuse_experiment_noop [OF Cons.prems(2,3) n0]
  obtain e2 s2 where p: "patch_experiment c chunk n0 s = (e2, s2)"
    by (cases "patch_experiment c chunk n0 s")
  from patch_experiment_other [OF p Cons.prems(2,3)] obtain qs2 where
    2: "qobjs s2 = Some qs2" "length qs2 = length qs"
       "length (experiments (qs2 ! chunk)) = length (experiments (qs ! chunk))"
       "mappings s2 = mappings s"
    by blast
  show ?case
  proof (cases e2)
    case (Some e)
    with Cons.prems(1) r p 2 show ?thesis by simp
  next
    case None
    with Cons.prems(1) r p have l: "load_circuits cs chunk (Suc n0) s2 = (r, s')" by simp
    from Cons.IH [OF l 2(1)] 2 Cons.prems(3,4) show ?thesis by simp
  qed
qed

lemma load_cached_loop:
  assumes "qobjs s = Some qs" "chunk < length qs"
  shows "load_qobj_from_cache circuits chunk s
     = (case load_circuits circuits chunk 0 s of
          (Some e, s3) \<Rightarrow> (Inl e, s3)
        | (None, s3) \<Rightarrow> (exec_qobj circuits chunk s3, s3))"
  using try_loading_cached [OF assms(1)] reuse_chunk_noop [OF assms]
  by (simp add: load_qobj_from_cache_def)

lemma partial_patchI:
  assumes "n' < n \<or> n' = n \<and> g' \<le> g"
    and "\<forall>m<n'. holds_circuit (circuits ! m) chunk m s" "raised_at (circuits ! n') chunk n' g' s"
  shows "partial_patch circuits chunk n g s"
proof -
  from assms(3) have "g' < length (instructions (slot s chunk n'))" by (simp add: raised_at_def)
  moreover from assms(1) have "n' \<le> n" "n' = n \<longrightarrow> g' \<le> g" by auto
  ultimately show ?thesis using assms(2,3) unfolding partial_patch_def by blast
qed

lemma load_raises_cached:
  assumes "qobjs s = Some qs" "chunk < length qs" "n < length circuits"
    and "n < length (experiments (qs ! chunk))"
    and "g < length (instructions (experiments (qs ! chunk) ! n))"
    and "instr_name (instructions (experiments (qs ! chunk) ! n) ! g) \<noteq> ''snapshot''"
    and "mapping_at (mappings s) chunk n g = Inr idx"
    and "idx < length (raw_gates (circuits ! n))"
    and "params_len (instructions (experiments (qs ! chunk) ! n) ! g)
           \<noteq> length (param (raw_gates (circuits ! n) ! idx))"
  shows "(\<exists>e. fst (load_qobj_from_cache circuits chunk s) = Inl e)
     \<and> partial_patch circuits chunk n g (snd (load_qobj_from_cache circuits chunk s))"
proof -
  from assms(1) have sl: "slot s chunk n = experiments (qs ! chunk) ! n"
    by (simp add: slot_def chunks_def)
  have np: "\<not> patchable (mappings s) chunk n (raw_gates (([] @ circuits) ! n)) g
               (instructions (slot s chunk n) ! g)"
    unfolding sl using assms(7,9) by (simp add: patchable_def)
  from load_circuits_raises_cached [of s qs chunk n "[]" circuits g] assms(1-6) np
  obtain e s' n' g' where l: "load_circuits circuits chunk 0 s = (Some e, s')"
    and p: "n' < n \<or> n' = n \<and> g' \<le> g" "\<forall>m<n'. holds_circuit (circuits ! m) chunk m s'"
       "raised_at (circuits ! n') chunk n' g' s'"
    unfolding sl by auto
  from l load_cached_loop [OF assms(1,2), of circuits]
  have "load_qobj_from_cache circuits chunk s = (Inl e, s')" by simp
  with partial_patchI [OF p] show ?thesis by simp
qed

lemma load_raises_reused_chunk:
  assumes "try_reusing_qobjs s" "qobjs s = Some qs" "mappings s = Some ms" "qs \<noteq> []" "ms \<noteq> []"
    and "chunk = length qs" "chunk \<le> length ms" "n < length circuits"
    and "n < length (experiments (qs ! 0))"
    and "g < length (instructions (experiments (qs ! 0) ! n))"
    and "instr_name (instructions (experiments (qs ! 0) ! n) ! g) \<noteq> ''snapshot''"
    and "mapping_at (mappings s) 0 n g = Inr idx"
    and "idx < length (raw_gates (circuits ! n))"
    and "params_len (instructions (experiments (qs ! 0) ! n) ! g)
           \<noteq> length (param (raw_gates (circuits ! n) ! idx))"
  shows "(\<exists>e. fst (load_qobj_from_cache circuits chunk s) = Inl e)
     \<and> partial_patch circuits chunk n g (snd (load_qobj_from_cache circuits chunk s))"
proof -
  let ?qs2 = "qs @ [qs ! 0]"
  let ?ms2 = "list_insert chunk (ms ! 0) ms"
  let ?s2 = "s\<lparr>mappings := Some ?ms2, qobjs := Some ?qs2\<rparr>"
  from reuse_chunk_next [OF assms(1-6)] have rc: "reuse_chunk chunk s = (None, ?s2)" .
  have q2: "qobjs ?s2 = Some ?qs2" by simp
  have c2: "chunk < length ?qs2" using assms(6) by simp
  have j2: "?qs2 ! chunk = qs ! 0" using assms(6) by simp
  have sl: "slot ?s2 chunk n = experiments (qs ! 0) ! n"
    using j2 by (simp add: slot_def chunks_def)
  have m2: "mapping_at (mappings ?s2) chunk n g = mapping_at (mappings s) 0 n g"
    using assms(3,5,7)
    by (simp add: mapping_at_def list_insert_length list_insert_nth)
  have np: "\<not> patchable (mappings ?s2) chunk n (raw_gates (([] @ circuits) ! n)) g
               (instructions (slot ?s2 chunk n) ! g)"
    unfolding sl patchable_shape m2 using assms(12,14) by simp
  have n2: "n < length (experiments (?qs2 ! chunk))" unfolding j2 by (rule assms(9))
  from load_circuits_raises_cached [of ?s2 ?qs2 chunk n "[]" circuits g, OF q2 c2 n2] assms(8,10,11) np
  obtain e s' n' g' where l: "load_circuits circuits chunk 0 ?s2 = (Some e, s')"
    and p: "n' < n \<or> n' = n \<and> g' \<le> g" "\<forall>m<n'. holds_circuit (circuits ! m) chunk m s'"
       "raised_at (circuits ! n') chunk n' g' s'"
    unfolding sl by auto
  from l rc try_loading_cached [OF assms(2)]
  have "load_qobj_from_cache circuits chunk s = (Inl e, s')"
    by (simp add: load_qobj_from_cache_def)
  with partial_patchI [OF p] show ?thesis by simp
qed

lemma load_raises_reused_experiment:
  assumes "try_reusing_qobjs s" "qobjs s = Some qs" "mappings s = Some ms" "qs \<noteq> []" "ms \<noteq> []"
    and "experiments (qs ! 0) \<noteq> []" "length (experiments (qs ! 0)) \<le> length (ms ! 0)"
    and "length (experiments (qs ! 0)) \<le> n" "n < length circuits"
    and "g < length (instructions (experiments (qs ! 0) ! 0))"
    and "instr_name (instructions (experiments (qs ! 0) ! 0) ! g) \<noteq> ''snapshot''"
    and "mapping_at (mappings s) 0 0 g = Inr idx"
    and "idx < length (raw_gates (circuits ! n))"
    and "params_len (instructions (experiments (qs ! 0) ! 0) ! g)
           \<noteq> length (param (raw_gates (circuits ! n) ! idx))"
  shows "(\<exists>e. fst (load_qobj_from_cache circuits 0 s) = Inl e)
     \<and> partial_patch circuits 0 n g (snd (load_qobj_from_cache circuits 0 s))"
proof -
  from assms(2) have sl: "slot s 0 0 = experiments (qs ! 0) ! 0"
    by (simp add: slot_def chunks_def)
  from assms(3,12) have m: "g < length (ms ! 0 ! 0)" "ms ! 0 ! 0 ! g = idx"
    by (auto simp: mapping_at_def split: if_splits)
  from assms(4) have c: "0 < length qs" by simp
  have "\<exists>e s'. load_circuits circuits 0 (length ([]::circuit list)) s = (Some e, s')
     \<and> (\<exists>n' g'. (n' < n \<or> n' = n \<and> g' \<le> g)
           \<and> (\<forall>m<n'. holds_circuit (([] @ circuits) ! m) 0 m s')
           \<and> raised_at (([] @ circuits) ! n') 0 n' g' s')"
  proof (rule load_circuits_raises_reused [OF assms(1-6) _ assms(8) assms(7)])
    show "length ([]::circuit list) \<le> length (experiments (qs ! 0))" by simp
    show "n < length ([] @ circuits)" using assms(9) by simp
    show "g < length (instructions (slot s 0 0))" unfolding sl by (rule assms(10))
    show "instr_name (instructions (slot s 0 0) ! g) = instr_name (instructions (slot s 0 0) ! g)" ..
    show "instr_name (instructions (slot s 0 0) ! g) \<noteq> ''snapshot''" unfolding sl by (rule assms(11))
    show "params_len (instructions (slot s 0 0) ! g) = params_len (instructions (slot s 0 0) ! g)" ..
    show "g < length (ms ! 0 ! 0)" by (rule m(1))
    show "ms ! 0 ! 0 = ms ! 0 ! 0" ..
    show "raw_gates (([] @ circuits) ! n) = raw_gates (circuits ! n)" by simp
    show "\<not> (ms ! 0 ! 0 ! g < length (raw_gates (circuits ! n))
           \<and> params_len (instructions (slot s 0 0) ! g)
               = length (param (raw_gates (circuits ! n) ! (ms ! 0 ! 0 ! g)))
           \<and> instr_name (instructions (slot s 0 0) ! g)
               = gate_name (raw_gates (circuits ! n) ! (ms ! 0 ! 0 ! g)))"
      unfolding sl m(2) using assms(14) by simp
    show "\<forall>m<length ([]::circuit list). holds_circuit (([] @ circuits) ! m) 0 m s" by simp
  qed
  then obtain e s' n' g' where l: "load_circuits circuits 0 0 s = (Some e, s')"
    and p: "n' < n \<or> n' = n \<and> g' \<le> g" "\<forall>m<n'. holds_circuit (circuits ! m) 0 m s'"
       "raised_at (circuits ! n') 0 n' g' s'"
    by auto
  from l load_cached_loop [OF assms(2) c, of circuits]
  have "load_qobj_from_cache circuits 0 s = (Inl e, s')" by simp
  with partial_patchI [OF p] show ?thesis by simp
qed

subsection \<open>A compiled instruction without a matching operation\<close>

text \<open>
  Claim C7. When a compiled instruction has a signature that no operation of the circuit
  has, or one whose queue is already used up, the matcher is to fail with the shape
  exception in either case. The circuit here has the single operation \<open>OpA\<close> on qubit 0.
  Compiled to two \<open>OpA\<close> instructions (queue used up), \<open>cache_circuit\<close> raises the shape
  exception for \<open>OpA[0]\<close>. Compiled to one \<open>OpB\<close> instruction (signature absent), the
  lookup \<open>op_graph[type_and_qubits]\<close> itself raises \<open>KeyError\<close>, and the shape exception
  is never reached.
\<close>

theorem cache_circuit_unmatched_instruction:
  "fst (cache_circuit exhausted_qobj [single_circuit] 0 initial_cache)
     = Some (ShapeMismatchQobj ''OpA[0]'')
   \<and> fst (cache_circuit absent_qobj [single_circuit] 0 initial_cache)
     = Some (KeyError ''OpB[0]'')"
  by (simp add: example_defs eval_defs)

subsection \<open>The mapping follows the order of equal signatures\<close>

lemma scenario1_eval:
  "fst (cache_circuit scenario1_qobj [scenario1_circuit] 0 initial_cache) = None
   \<and> mappings (snd (cache_circuit scenario1_qobj [scenario1_circuit] 0 initial_cache)) = Some [[[0, 1, 2]]]"
  by (simp add: example_defs eval_defs)

text \<open>
  Claim C3. After a successful \<open>cache_circuit\<close>, the mapping stored for circuit \<open>i\<close> has
  one entry per compiled instruction, and the entry for instruction \<open>p\<close> is the index of
  the \<open>k\<close>-th gate of the circuit that has the signature of instruction \<open>p\<close>, where
  \<open>k = rank \<dots> p\<close> counts the earlier compiled instructions with that signature: the
  per-signature queues are filled in circuit order and popped at the front in the order
  of the compiled instructions. For the three operations of scenario 1, compiled in the
  same order, the call succeeds and stores the mapping \<open>[0, 1, 2]\<close>.
\<close>

theorem cache_circuit_fifo:
  "(\<forall>qobj circuits chunk s s' i p.
      cache_circuit qobj circuits chunk s = (None, s') \<longrightarrow> i < length circuits \<longrightarrow>
      p < length (instructions (experiments qobj ! i)) \<longrightarrow>
      (\<exists>ms. mappings s' = Some ms \<and> chunk < length ms \<and> i < length (ms ! chunk)
         \<and> length (ms ! chunk ! i) = length (instructions (experiments qobj ! i))
         \<and> rank (instructions (experiments qobj ! i)) p
             < length (source_indices (qreg_indeces (circuits ! i)) (raw_gates (circuits ! i))
                         (instr_key (instructions (experiments qobj ! i) ! p)))
         \<and> ms ! chunk ! i ! p
             = source_indices (qreg_indeces (circuits ! i)) (raw_gates (circuits ! i))
                 (instr_key (instructions (experiments qobj ! i) ! p))
               ! rank (instructions (experiments qobj ! i)) p))
   \<and> fst (cache_circuit scenario1_qobj [scenario1_circuit] 0 initial_cache) = None
   \<and> mappings (snd (cache_circuit scenario1_qobj [scenario1_circuit] 0 initial_cache))
       = Some [[[0, 1, 2]]]"
proof -
  have "\<exists>ms. mappings s' = Some ms \<and> chunk < length ms \<and> i < length (ms ! chunk)
         \<and> length (ms ! chunk ! i) = length (instructions (experiments qobj ! i))
         \<and> rank (instructions (experiments qobj ! i)) p
             < length (source_indices (qreg_indeces (circuits ! i)) (raw_gates (circuits ! i))
                         (instr_key (instructions (experiments qobj ! i) ! p)))
         \<and> ms ! chunk ! i ! p
             = source_indices (qreg_indeces (circuits ! i)) (raw_gates (circuits ! i))
                 (instr_key (instructions (experiments qobj ! i) ! p))
               ! rank (instructions (experiments qobj ! i)) p"
    if ok: "cache_circuit qobj circuits chunk s = (None, s')" and i: "i < length circuits"
      and p: "p < length (instructions (experiments qobj ! i))"
    for qobj circuits chunk s s' i p
  proof -
    from cache_circuit_stored [OF ok i] obtain ms g where
      ms: "mappings s' = Some ms" "chunk < length ms" "i < length (ms ! chunk)"
      and cm: "circuit_mapping (circuits ! i) qobj i = Inr (g, ms ! chunk ! i)"
      by blast
    from circuit_mapping_fifo [OF cm] p ms show ?thesis by simp
  qed
  with scenario1_eval show ?thesis by blast
qed

text \<open>
  The theorem at the circuit \<open>h q[0]; u1 q[1]\<close>, compiled in this order, for its second
  instruction.
\<close>

theorem cache_circuit_fifo_witness:
  "cache_circuit mixed_qobj [mixed_circuit] 0 initial_cache
      = (None, snd (cache_circuit mixed_qobj [mixed_circuit] 0 initial_cache))
   \<and> (0::nat) < length [mixed_circuit]
   \<and> (1::nat) < length (instructions (experiments mixed_qobj ! 0))
   \<and> (\<exists>ms. mappings (snd (cache_circuit mixed_qobj [mixed_circuit] 0 initial_cache)) = Some ms
         \<and> (0::nat) < length ms \<and> 0 < length (ms ! 0)
         \<and> length (ms ! 0 ! 0) = length (instructions (experiments mixed_qobj ! 0))
         \<and> rank (instructions (experiments mixed_qobj ! 0)) 1
             < length (source_indices (qreg_indeces ([mixed_circuit] ! 0)) (raw_gates ([mixed_circuit] ! 0))
                         (instr_key (instructions (experiments mixed_qobj ! 0) ! 1)))
         \<and> ms ! 0 ! 0 ! 1
             = source_indices (qreg_indeces ([mixed_circuit] ! 0)) (raw_gates ([mixed_circuit] ! 0))
                 (instr_key (instructions (experiments mixed_qobj ! 0) ! 1))
               ! rank (instructions (experiments mixed_qobj ! 0)) 1)
   \<and> mappings (snd (cache_circuit mixed_qobj [mixed_circuit] 0 initial_cache)) = Some [[[0, 1]]]"
proof -
  have v: "mappings (snd (cache_circuit mixed_qobj [mixed_circuit] 0 initial_cache)) = Some [[[0, 1]]]"
    by (simp add: example_defs eval_defs)
  have e: "fst (cache_circuit mixed_qobj [mixed_circuit] 0 initial_cache) = None"
    by (simp add: example_defs eval_defs)
  then have h: "cache_circuit mixed_qobj [mixed_circuit] 0 initial_cache
      = (None, snd (cache_circuit mixed_qobj [mixed_circuit] 0 initial_cache))"
    by (metis prod.collapse)
  have i: "(0::nat) < length [mixed_circuit]" by simp
  have l: "(1::nat) < length (instructions (experiments mixed_qobj ! 0))"
    by (simp add: example_defs)
  note c = cache_circuit_fifo [THEN conjunct1, rule_format, OF h i l]
  from h i l c v show ?thesis by (intro conjI)
qed

subsection \<open>The mapping is a bijection onto all gates of the circuit\<close>

lemma mixed_eval:
  "fst (cache_circuit mixed_qobj [mixed_circuit] 0 initial_cache) = None
   \<and> mappings (snd (cache_circuit mixed_qobj [mixed_circuit] 0 initial_cache)) = Some [[[0, 1]]]"
  by (simp add: example_defs eval_defs)

lemma gate_key_same:
  assumes "gate_key idx u = Inr (instr_key c)"
  shows "instr_name c = gate_name u \<and> resolve_qubits idx (arg u) = Inr (qubits c)"
proof -
  from assms obtain qs where qs: "resolve_qubits idx (arg u) = Inr qs"
    and "type_and_qubits (gate_name u) qs = type_and_qubits (instr_name c) (qubits c)"
    by (auto simp: gate_key_def instr_key_def split: sum.splits)
  from type_and_qubits_inj [OF this(2)] str_list_inj [of qs "qubits c"] qs
  show ?thesis by simp
qed

text \<open>
  Claim C4, as stated: the length of a stored mapping is the number of gates of the
  circuit that carry parameters. The circuit \<open>h q[0]; u1(1/2) q[1]\<close> has one such gate,
  and its stored mapping \<open>[0, 1]\<close> has two entries: the matcher maps every gate, with or
  without parameters.
\<close>

theorem cache_circuit_mapping_counterexample:
  "fst (cache_circuit mixed_qobj [mixed_circuit] 0 initial_cache) = None
   \<and> mappings (snd (cache_circuit mixed_qobj [mixed_circuit] 0 initial_cache)) = Some [[[0, 1]]]
   \<and> length (filter parameterized (raw_gates mixed_circuit)) = 1
   \<and> length ([0, 1] :: nat list) \<noteq> length (filter parameterized (raw_gates mixed_circuit))"
  using mixed_eval by (simp add: example_defs raw_gates_def parameterized_def)

text \<open>
  Claim C4, amended. After a successful \<open>cache_circuit\<close>, the mapping stored for circuit
  \<open>i\<close> is a bijection from the compiled instructions onto all gates of the unrolled
  circuit: it has as many entries as the circuit has gates and as the experiment has
  instructions, its entries are pairwise distinct and are exactly the gate indices, and
  each instruction has the name and the resolved qubits of the gate it is mapped to.
\<close>

theorem cache_circuit_mapping_bijection:
  assumes "cache_circuit qobj circuits chunk s = (None, s')" and "i < length circuits"
  shows "\<exists>ms. mappings s' = Some ms \<and> chunk < length ms \<and> i < length (ms ! chunk)
      \<and> length (ms ! chunk ! i) = length (raw_gates (circuits ! i))
      \<and> length (ms ! chunk ! i) = length (instructions (experiments qobj ! i))
      \<and> distinct (ms ! chunk ! i)
      \<and> set (ms ! chunk ! i) = {0..<length (raw_gates (circuits ! i))}
      \<and> (\<forall>p<length (ms ! chunk ! i).
            instr_name (instructions (experiments qobj ! i) ! p)
              = gate_name (raw_gates (circuits ! i) ! (ms ! chunk ! i ! p))
            \<and> resolve_qubits (qreg_indeces (circuits ! i))
                (arg (raw_gates (circuits ! i) ! (ms ! chunk ! i ! p)))
              = Inr (qubits (instructions (experiments qobj ! i) ! p)))"
proof -
  let ?c = "circuits ! i" and ?cs = "instructions (experiments qobj ! i)"
  from cache_circuit_stored [OF assms] obtain ms g where
    ms: "mappings s' = Some ms" "chunk < length ms" "i < length (ms ! chunk)"
    and cm: "circuit_mapping ?c qobj i = Inr (g, ms ! chunk ! i)"
    and lo: "leftover g = None"
    by blast
  let ?m = "ms ! chunk ! i"
  from circuit_mapping_perm [OF cm lo] have perm: "mset ?m = mset [0..<length (raw_gates ?c)]" .
  from mset_eq_length [OF perm] have len: "length ?m = length (raw_gates ?c)" by simp
  from mset_eq_imp_distinct_iff [OF perm] have dist: "distinct ?m" by simp
  from mset_eq_setD [OF perm] have set: "set ?m = {0..<length (raw_gates ?c)}" by simp
  note fifo = circuit_mapping_fifo [OF cm]
  from fifo have len2: "length ?m = length ?cs" by simp
  have same: "instr_name (?cs ! p) = gate_name (raw_gates ?c ! (?m ! p))
            \<and> resolve_qubits (qreg_indeces ?c) (arg (raw_gates ?c ! (?m ! p))) = Inr (qubits (?cs ! p))"
    if "p < length ?m" for p
  proof -
    from that len2 have p: "p < length ?cs" by simp
    with fifo have "?m ! p \<in> set (source_indices (qreg_indeces ?c) (raw_gates ?c) (instr_key (?cs ! p)))"
      by (metis nth_mem)
    from source_indices_key [OF this]
    have "gate_key (qreg_indeces ?c) (raw_gates ?c ! (?m ! p)) = Inr (instr_key (?cs ! p))" by simp
    from gate_key_same [OF this] show ?thesis .
  qed
  from ms len len2 dist set same show ?thesis by blast
qed

text \<open>The theorem at the circuit \<open>h q[0]; u1(1/2) q[1]\<close>.\<close>

theorem cache_circuit_mapping_bijection_witness:
  "cache_circuit mixed_qobj [mixed_circuit] 0 initial_cache
      = (None, snd (cache_circuit mixed_qobj [mixed_circuit] 0 initial_cache))
   \<and> (0::nat) < length [mixed_circuit]
   \<and> (\<exists>ms. mappings (snd (cache_circuit mixed_qobj [mixed_circuit] 0 initial_cache)) = Some ms
        \<and> length (ms ! 0 ! 0) = 2 \<and> distinct (ms ! 0 ! 0) \<and> set (ms ! 0 ! 0) = {0..<2})"
proof -
  have h: "cache_circuit mixed_qobj [mixed_circuit] 0 initial_cache
      = (None, snd (cache_circuit mixed_qobj [mixed_circuit] 0 initial_cache))"
    using mixed_eval by (metis prod.collapse)
  have i: "(0::nat) < length [mixed_circuit]" by simp
  have n: "length (raw_gates ([mixed_circuit] ! 0)) = 2"
    by (simp add: example_defs raw_gates_def)
  from cache_circuit_mapping_bijection [OF h i] obtain ms where
    "mappings (snd (cache_circuit mixed_qobj [mixed_circuit] 0 initial_cache)) = Some ms"
    "length (ms ! 0 ! 0) = 2" "distinct (ms ! 0 ! 0)" "set (ms ! 0 ! 0) = {0..<2}"
    unfolding n by blast
  with h i show ?thesis by blast
qed

subsection \<open>A compiled job that misses an instruction\<close>





subsection \<open>Inserting at an index that is already cached\<close>

lemma scenario1_cache_eval:
  "qobjs scenario1_cache = Some [\<lparr>qobj_id = ''job'', experiments =
      [\<lparr>header = \<lparr>header_name = ''c'', compiled_circuit_qasm = None\<rparr>,
        instructions = [instr ''OpA'' [0] [], instr ''OpB'' [0, 1] [], instr ''OpA'' [0] []]\<rparr>]\<rparr>]
   \<and> mappings scenario1_cache = Some [[[0, 1, 2]]]
   \<and> misses scenario1_cache = Some 0 \<and> cache_file scenario1_cache = None
   \<and> try_reusing_qobjs scenario1_cache \<and> \<not> naughty_mode scenario1_cache"
  unfolding scenario1_cache_def by (simp add: example_defs eval_defs)

lemma reinsert_eval:
  "fst (cache_circuit mixed_qobj [mixed_circuit] 0 scenario1_cache) = None
   \<and> chunk_mappings (snd (cache_circuit mixed_qobj [mixed_circuit] 0 scenario1_cache))
       = [[[0, 1]], [[0, 1, 2]]]
   \<and> length (chunks (snd (cache_circuit mixed_qobj [mixed_circuit] 0 scenario1_cache))) = 2
   \<and> chunks (snd (cache_circuit mixed_qobj [mixed_circuit] 0 scenario1_cache)) ! 1
       = chunks scenario1_cache ! 0"
  using scenario1_cache_eval
  by (simp add: cache_circuit_def chunks_def chunk_mappings_def mixed_circuit_def mixed_qobj_def
       q_reg_def gate_on_def circuit_of_def instr_def experiment_of_def job_of_def
       circuit_mapping_def raw_gates_def qreg_indeces_def qreg_sizes_def
       type_and_qubits_def str_list_def str_int_def str_nat.simps digit_char_def graph_get_def
       list_insert_def enumerate_eq_zip del_qasm_def store_mapping_def save_cache_def deepcopy_def Let_def)

text \<open>
  Claim C6, as stated: a successful insert at a cached chunk index replaces the entry
  there, and the number of chunks does not grow. With scenario 1 cached as chunk 0, the
  insert of another job at index 0 succeeds, after which the cache holds two chunks: the
  new one at index 0 and the one of scenario 1 at index 1. \<open>qobjs.insert\<close> and
  \<open>mappings.insert\<close> are Python's \<open>list.insert\<close>, which shifts and never overwrites.
\<close>

theorem cache_circuit_replace_counterexample:
  "fst (cache_circuit mixed_qobj [mixed_circuit] 0 scenario1_cache) = None
   \<and> length (chunks scenario1_cache) = 1
   \<and> length (chunks (snd (cache_circuit mixed_qobj [mixed_circuit] 0 scenario1_cache))) = 2
   \<and> chunks (snd (cache_circuit mixed_qobj [mixed_circuit] 0 scenario1_cache)) ! 1
       = chunks scenario1_cache ! 0
   \<and> chunk_mappings (snd (cache_circuit mixed_qobj [mixed_circuit] 0 scenario1_cache))
       = [[[0, 1]], [[0, 1, 2]]]"
  using reinsert_eval scenario1_cache_eval by (simp add: chunks_def)

text \<open>
  Claim C6, amended. A successful insert at a cached chunk index puts the new job (with
  the instructions of the compiled job) and its mappings, one per circuit, at that index;
  the entries that were at this index and beyond move up by one, and the cache holds one
  chunk more than before.
\<close>

theorem cache_circuit_shifts:
  assumes "cache_circuit qobj circuits chunk s = (None, s')"
    and "qobjs s = Some qs" and "mappings s = Some ms"
    and "chunk < length qs" and "chunk < length ms"
  shows "\<exists>q' m'. qobjs s' = Some (list_insert chunk q' qs)
      \<and> mappings s' = Some (list_insert chunk m' ms)
      \<and> qobj_id q' = qobj_id qobj
      \<and> map instructions (experiments q') = map instructions (experiments qobj)
      \<and> length m' = length circuits
      \<and> length (chunks s') = Suc (length qs) \<and> length (chunk_mappings s') = Suc (length ms)
      \<and> chunks s' ! chunk = q' \<and> chunks s' ! Suc chunk = qs ! chunk
      \<and> chunk_mappings s' ! chunk = m' \<and> chunk_mappings s' ! Suc chunk = ms ! chunk"
proof -
  from cache_circuit_frame [OF assms(1)] assms(2,3) obtain q' m' where
    fr: "qobjs s' = Some (list_insert chunk q' qs)" "mappings s' = Some (list_insert chunk m' ms)"
      "qobj_id q' = qobj_id qobj"
      "map instructions (experiments q') = map instructions (experiments qobj)"
      "length m' = length circuits"
    by (auto simp: chunks_def chunk_mappings_def)
  have "chunks s' = list_insert chunk q' qs" "chunk_mappings s' = list_insert chunk m' ms"
    using fr by (simp_all add: chunks_def chunk_mappings_def)
  with assms(4,5) have
    "length (chunks s') = Suc (length qs)" "length (chunk_mappings s') = Suc (length ms)"
    "chunks s' ! chunk = q'" "chunks s' ! Suc chunk = qs ! chunk"
    "chunk_mappings s' ! chunk = m'" "chunk_mappings s' ! Suc chunk = ms ! chunk"
    by (simp_all add: list_insert_length list_insert_nth list_insert_nth_after)
  with fr show ?thesis by blast
qed

text \<open>The theorem at the insert into the cache that holds scenario 1.\<close>

theorem cache_circuit_shifts_witness:
  "cache_circuit mixed_qobj [mixed_circuit] 0 scenario1_cache
     = (None, snd (cache_circuit mixed_qobj [mixed_circuit] 0 scenario1_cache))
   \<and> qobjs scenario1_cache = Some (chunks scenario1_cache)
   \<and> mappings scenario1_cache = Some [[[0, 1, 2]]]
   \<and> (0::nat) < length (chunks scenario1_cache) \<and> (0::nat) < length [[[0::nat, 1, 2]]]
   \<and> length (chunks (snd (cache_circuit mixed_qobj [mixed_circuit] 0 scenario1_cache)))
        = Suc (length (chunks scenario1_cache))
   \<and> chunks (snd (cache_circuit mixed_qobj [mixed_circuit] 0 scenario1_cache)) ! Suc 0
        = chunks scenario1_cache ! 0
   \<and> chunk_mappings (snd (cache_circuit mixed_qobj [mixed_circuit] 0 scenario1_cache)) ! Suc 0
        = [[[0, 1, 2]]] ! 0"
proof -
  have h: "cache_circuit mixed_qobj [mixed_circuit] 0 scenario1_cache
     = (None, snd (cache_circuit mixed_qobj [mixed_circuit] 0 scenario1_cache))"
    using reinsert_eval by (metis prod.collapse)
  have q: "qobjs scenario1_cache = Some (chunks scenario1_cache)"
    using scenario1_cache_eval by (simp add: chunks_def)
  have m: "mappings scenario1_cache = Some [[[0, 1, 2]]]"
    using scenario1_cache_eval by simp
  have l: "(0::nat) < length (chunks scenario1_cache)"
    using scenario1_cache_eval by (simp add: chunks_def)
  have l': "(0::nat) < length [[[0::nat, 1, 2]]]" by simp
  from cache_circuit_shifts [OF h q m l l'] h q m l l' show ?thesis by blast
qed

subsection \<open>A cache file that cannot be loaded\<close>

text \<open>
  Claim C9, as stated: when loading the configured cache file fails, the failure is
  recovered locally, with an empty in-memory cache, and is not propagated. With a cache
  file configured that does not exist, or whose bytes do not unpickle,
  \<open>load_qobj_from_cache\<close> raises \<open>FileNotFoundError\<close> or the unpickling error: neither
  \<open>try_loading_cache_from_file\<close> nor its caller in the module catches anything.
\<close>

theorem load_failure_counterexample:
  "load_qobj_from_cache [mixed_circuit] 0 missing_file_cache = (Inl FileNotFoundError, missing_file_cache)
   \<and> qobjs missing_file_cache = None
   \<and> load_qobj_from_cache [mixed_circuit] 0 corrupt_file_cache = (Inl UnpicklingError, corrupt_file_cache)
   \<and> qobjs corrupt_file_cache = None"
  by (simp add: load_qobj_from_cache_def try_loading_cache_from_file_def missing_file_cache_def
        corrupt_file_cache_def initial_cache_def)

text \<open>
  Claim C9, amended. When no cache is in memory and the configured cache file is missing
  or does not unpickle, \<open>try_loading_cache_from_file\<close> raises the error, and so does
  \<open>load_qobj_from_cache\<close>; the globals are left as they were, with no cache in memory.
  Falling back is left to whoever called the module.
\<close>

theorem load_failure_propagates:
  assumes "qobjs s = None" and "cache_file s = Some f" and "f \<noteq> []"
    and "disk s f = None \<or> disk s f = Some Garbage"
  shows "try_loading_cache_from_file s
           = (Some (if disk s f = None then FileNotFoundError else UnpicklingError), s)
     \<and> load_qobj_from_cache circuits chunk s
           = (Inl (if disk s f = None then FileNotFoundError else UnpicklingError), s)"
  using assms by (auto simp: load_qobj_from_cache_def try_loading_cache_from_file_def)

text \<open>The theorem at the fresh cache whose cache file does not exist.\<close>

theorem load_failure_propagates_witness:
  "qobjs missing_file_cache = None \<and> cache_file missing_file_cache = Some ''cache.pkl''
   \<and> ''cache.pkl'' \<noteq> []
   \<and> (disk missing_file_cache ''cache.pkl'' = None \<or> disk missing_file_cache ''cache.pkl'' = Some Garbage)
   \<and> try_loading_cache_from_file missing_file_cache = (Some FileNotFoundError, missing_file_cache)
   \<and> load_qobj_from_cache [mixed_circuit] 0 missing_file_cache
        = (Inl FileNotFoundError, missing_file_cache)"
proof -
  have a: "qobjs missing_file_cache = None" "cache_file missing_file_cache = Some ''cache.pkl''"
    "''cache.pkl'' \<noteq> []"
    "disk missing_file_cache ''cache.pkl'' = None \<or> disk missing_file_cache ''cache.pkl'' = Some Garbage"
    and d: "disk missing_file_cache ''cache.pkl'' = None"
    by (simp_all add: missing_file_cache_def initial_cache_def)
  from load_failure_propagates [OF a, of "[mixed_circuit]" 0] a show ?thesis
    by (simp add: d)
qed

subsection \<open>The cached job is rewritten in place\<close>

lemma mixed_cache_eval:
  "qobjs mixed_cache = Some [\<lparr>qobj_id = ''job'', experiments =
      [\<lparr>header = \<lparr>header_name = ''c'', compiled_circuit_qasm = None\<rparr>,
        instructions = [instr ''h'' [0] [], instr ''u1'' [1] [0]]\<rparr>]\<rparr>]
   \<and> mappings mixed_cache = Some [[[0, 1]]]
   \<and> misses mixed_cache = Some 0 \<and> cache_file mixed_cache = None
   \<and> try_reusing_qobjs mixed_cache \<and> \<not> naughty_mode mixed_cache"
  unfolding mixed_cache_def by (simp add: example_defs eval_defs)


lemma mixed_load_eval:
  "fst (load_qobj_from_cache [mixed_circuit] 0 mixed_cache)
     = Inr \<lparr>qobj_id = ''job'', experiments =
        [\<lparr>header = \<lparr>header_name = ''c'', compiled_circuit_qasm = None\<rparr>,
          instructions = [instr ''h'' [0] [], instr ''u1'' [1] [1 / 2]]\<rparr>]\<rparr>
   \<and> qobjs (snd (load_qobj_from_cache [mixed_circuit] 0 mixed_cache))
     = Some [\<lparr>qobj_id = ''job'', experiments =
        [\<lparr>header = \<lparr>header_name = ''c'', compiled_circuit_qasm = None\<rparr>,
          instructions = [instr ''h'' [0] [], instr ''u1'' [1] [1 / 2]]\<rparr>]\<rparr>]"
  using mixed_cache_eval
  by (simp add: load_defs mixed_circuit_def gate_on_def circuit_of_def instr_def q_reg_def)

text \<open>
  Claim C1, as stated: in safe mode the cached job is the same after
  \<open>load_qobj_from_cache\<close> as before, since the experiments are deep-copied before they are
  rewritten. In safe mode, with the job of \<open>h q[0]; u1 q[1]\<close> cached with parameter \<open>0\<close>,
  loading the circuit with parameter \<open>1/2\<close> succeeds and leaves \<open>1/2\<close> in the cached job:
  the loop assigns \<open>compiled_gate.params\<close> on the instructions of \<open>qobjs[chunk]\<close>, and
  the deep copy is taken afterwards, of the rewritten experiments.
\<close>

theorem load_mutates_cache_counterexample:
  "\<not> naughty_mode mixed_cache
   \<and> fst (load_qobj_from_cache [mixed_circuit] 0 mixed_cache)
     = Inr \<lparr>qobj_id = ''job'', experiments =
        [\<lparr>header = \<lparr>header_name = ''c'', compiled_circuit_qasm = None\<rparr>,
          instructions = [instr ''h'' [0] [], instr ''u1'' [1] [1 / 2]]\<rparr>]\<rparr>
   \<and> params (instructions (experiments (chunks mixed_cache ! 0) ! 0) ! 1) = Some [0]
   \<and> params (instructions (experiments
        (chunks (snd (load_qobj_from_cache [mixed_circuit] 0 mixed_cache)) ! 0) ! 0) ! 1) = Some [1 / 2]
   \<and> qobjs (snd (load_qobj_from_cache [mixed_circuit] 0 mixed_cache)) \<noteq> qobjs mixed_cache"
  using mixed_cache_eval mixed_load_eval by (simp add: chunks_def instr_def)

text \<open>
  Claim C1, amended. A successful \<open>load_qobj_from_cache\<close> on a cached chunk rewrites the
  cached job in place, in safe mode as in naughty mode (nothing is assumed of
  \<open>naughty_mode\<close>): after the call, for every circuit \<open>n\<close> of the call, cached
  experiment \<open>n\<close> of the chunk carries the name of the circuit, and each of its
  instructions other than a \<open>snapshot\<close> carries the parameters of the gate of circuit
  \<open>n\<close> that \<open>mappings\<close> gives for it; \<open>mappings\<close> is as before the call when no
  experiment had to be added. The job handed out has the first \<open>len(circuits)\<close>
  experiments of the rewritten cached job. What the call may change is bounded: the number
  of cached jobs and every job other than \<open>chunk\<close> stay as they are; in job \<open>chunk\<close>
  each experiment keeps its instructions up to their parameters (and its header up to the
  name), \<open>snapshot\<close> instructions stay as they are, and experiments may be added at the
  end.
\<close>

theorem load_patches_cache_in_place:
  assumes "load_qobj_from_cache circuits chunk s = (Inr job, s')"
    and "qobjs s = Some qs" and "chunk < length qs"
  shows "\<exists>qs'. qobjs s' = Some qs' \<and> length qs' = length qs
      \<and> (\<forall>c<length qs. c \<noteq> chunk \<longrightarrow> qs' ! c = qs ! c)
      \<and> job_patched (qs ! chunk) (qs' ! chunk)
      \<and> qobj_id job = qobj_id (qs ! chunk)
      \<and> experiments job = take (length circuits) (experiments (qs' ! chunk))
      \<and> (\<forall>n<length circuits. holds_circuit (circuits ! n) chunk n s')
      \<and> (length circuits \<le> length (experiments (qs ! chunk)) \<longrightarrow> mappings s' = mappings s)"
proof -
  from load_qobj_from_cache_frame [OF assms(1,2)] assms(3) obtain qs' where
    f: "qobjs s' = Some qs'" "cache_patched chunk qs qs'" "length qs' = length qs"
       "qobj_id job = qobj_id (qs' ! chunk)"
       "experiments job = take (length circuits) (experiments (qs' ! chunk))"
    by auto
  from f(2) assms(3) have j: "job_patched (qs ! chunk) (qs' ! chunk)"
    and o: "\<forall>c<length qs. c \<noteq> chunk \<longrightarrow> qs' ! c = qs ! c"
    by (simp_all add: cache_patched_def)
  from j f(4) have i: "qobj_id job = qobj_id (qs ! chunk)"
    by (simp add: job_patched_def)
  obtain e3 s3 where l: "load_circuits circuits chunk 0 s = (e3, s3)"
    by (cases "load_circuits circuits chunk 0 s")
  from assms(1) l load_cached_loop [OF assms(2,3), of circuits]
  have l': "load_circuits circuits chunk 0 s = (None, s')"
    by (cases e3) auto
  from load_circuits_holds [of circuits chunk "[]" s s'] l'
  have h: "\<forall>n<length circuits. holds_circuit (circuits ! n) chunk n s'" by simp
  have m: "mappings s' = mappings s" if "length circuits \<le> length (experiments (qs ! chunk))"
    using load_circuits_cached_mappings [OF l' assms(2,3)] that by simp
  from f(1,3,5) j o i h m show ?thesis by blast
qed

text \<open>
  The theorem at the load of \<open>h q[0]; u1(1/2) q[1]\<close> from the cache that holds its job
  with the parameter \<open>0\<close>: before the call the cached experiment does not hold the
  circuit, after the call it does.
\<close>

theorem load_patches_cache_in_place_witness:
  "load_qobj_from_cache [mixed_circuit] 0 mixed_cache
     = (Inr \<lparr>qobj_id = ''job'', experiments =
          [\<lparr>header = \<lparr>header_name = ''c'', compiled_circuit_qasm = None\<rparr>,
            instructions = [instr ''h'' [0] [], instr ''u1'' [1] [1 / 2]]\<rparr>]\<rparr>,
        snd (load_qobj_from_cache [mixed_circuit] 0 mixed_cache))
   \<and> qobjs mixed_cache = Some (chunks mixed_cache)
   \<and> (0::nat) < length (chunks mixed_cache)
   \<and> (\<exists>qs'. qobjs (snd (load_qobj_from_cache [mixed_circuit] 0 mixed_cache)) = Some qs'
         \<and> length qs' = length (chunks mixed_cache)
         \<and> job_patched (chunks mixed_cache ! 0) (qs' ! 0)
         \<and> [\<lparr>header = \<lparr>header_name = ''c'', compiled_circuit_qasm = None\<rparr>,
              instructions = [instr ''h'' [0] [], instr ''u1'' [1] [1 / 2]]\<rparr>]
            = take (length [mixed_circuit]) (experiments (qs' ! 0)))
   \<and> holds_circuit mixed_circuit 0 0 (snd (load_qobj_from_cache [mixed_circuit] 0 mixed_cache))
   \<and> mappings (snd (load_qobj_from_cache [mixed_circuit] 0 mixed_cache)) = mappings mixed_cache
   \<and> \<not> holds_circuit mixed_circuit 0 0 mixed_cache"
proof -
  have h: "load_qobj_from_cache [mixed_circuit] 0 mixed_cache
     = (Inr \<lparr>qobj_id = ''job'', experiments =
          [\<lparr>header = \<lparr>header_name = ''c'', compiled_circuit_qasm = None\<rparr>,
            instructions = [instr ''h'' [0] [], instr ''u1'' [1] [1 / 2]]\<rparr>]\<rparr>,
        snd (load_qobj_from_cache [mixed_circuit] 0 mixed_cache))"
    using mixed_load_eval by (metis prod.collapse)
  have q: "qobjs mixed_cache = Some (chunks mixed_cache)"
    using mixed_cache_eval by (simp add: chunks_def)
  have l: "(0::nat) < length (chunks mixed_cache)"
    using mixed_cache_eval by (simp add: chunks_def)
  have n: "\<not> holds_circuit mixed_circuit 0 0 mixed_cache"
    using mixed_cache_eval
    by (simp add: holds_circuit_def instr_written_def slot_def chunks_def mapping_at_def
          mixed_circuit_def raw_gates_def gate_on_def circuit_of_def instr_def float_list_def
          All_less_Suc2)
  have e: "length [mixed_circuit] \<le> length (experiments (chunks mixed_cache ! 0))"
    using mixed_cache_eval by (simp add: chunks_def)
  from load_patches_cache_in_place [OF h q l] e obtain qs' where
    t: "qobjs (snd (load_qobj_from_cache [mixed_circuit] 0 mixed_cache)) = Some qs'"
      "length qs' = length (chunks mixed_cache)"
      "job_patched (chunks mixed_cache ! 0) (qs' ! 0)"
      "[\<lparr>header = \<lparr>header_name = ''c'', compiled_circuit_qasm = None\<rparr>,
              instructions = [instr ''h'' [0] [], instr ''u1'' [1] [1 / 2]]\<rparr>]
            = take (length [mixed_circuit]) (experiments (qs' ! 0))"
      "\<forall>n<length [mixed_circuit]. holds_circuit ([mixed_circuit] ! n) 0 n
           (snd (load_qobj_from_cache [mixed_circuit] 0 mixed_cache))"
      "mappings (snd (load_qobj_from_cache [mixed_circuit] 0 mixed_cache)) = mappings mixed_cache"
    by auto
  from t(5) have "holds_circuit mixed_circuit 0 0 (snd (load_qobj_from_cache [mixed_circuit] 0 mixed_cache))"
    by simp
  with h q l t(1-4,6) n show ?thesis by blast
qed

subsection \<open>Snapshot instructions are skipped\<close>

lemma load_after_file:
  assumes "load_qobj_from_cache circuits chunk s = (r, s')"
    and "qobjs (snd (try_loading_cache_from_file s)) = Some qs"
  shows "\<exists>qs'. qobjs s' = Some qs' \<and> cache_patched chunk qs qs'
           \<and> (chunk < length qs \<longrightarrow> length qs' = length qs)
           \<and> (\<forall>job. r = Inr job \<longrightarrow> chunk < length qs' \<and> qobj_id job = qobj_id (qs' ! chunk)
                 \<and> experiments job = take (length circuits) (experiments (qs' ! chunk)))"
proof -
  obtain e1 s1 where t: "try_loading_cache_from_file s = (e1, s1)"
    by (cases "try_loading_cache_from_file s")
  with assms(2) have q1: "qobjs s1 = Some qs" by simp
  show ?thesis
  proof (cases e1)
    case (Some e)
    with assms(1) t have "s' = s1" "r = Inl e" by (simp_all add: load_qobj_from_cache_def)
    with q1 show ?thesis by (simp add: cache_patched_refl)
  next
    case None
    with assms(1) t try_loading_cached [OF q1]
    have "load_qobj_from_cache circuits chunk s1 = (r, s')"
      by (simp add: load_qobj_from_cache_def)
    from load_qobj_from_cache_frame [OF this q1] show ?thesis .
  qed
qed

lemma snapshot_kept:
  assumes "cache_patched chunk qs qs'" "c < length qs" "e < length (experiments (qs ! c))"
    and "i < length (instructions (experiments (qs ! c) ! e))"
    and "instr_name (instructions (experiments (qs ! c) ! e) ! i) = ''snapshot''"
  shows "c < length qs' \<and> e < length (experiments (qs' ! c))
     \<and> i < length (instructions (experiments (qs' ! c) ! e))
     \<and> instructions (experiments (qs' ! c) ! e) ! i = instructions (experiments (qs ! c) ! e) ! i"
proof -
  from assms(1,2) have c: "c < length qs'" and j: "job_patched (qs ! c) (qs' ! c)"
    by (simp_all add: cache_patched_def)
  from j assms(3) have e: "e < length (experiments (qs' ! c))"
    and x: "experiment_patched (experiments (qs ! c) ! e) (experiments (qs' ! c) ! e)"
    by (simp_all add: job_patched_def)
  from x have l: "list_all2 instr_patched (instructions (experiments (qs ! c) ! e))
      (instructions (experiments (qs' ! c) ! e))"
    by (simp add: experiment_patched_def)
  from list_all2_lengthD [OF l] assms(4) have i: "i < length (instructions (experiments (qs' ! c) ! e))"
    by simp
  from list_all2_nthD [OF l assms(4)] assms(5)
  have "instructions (experiments (qs' ! c) ! e) ! i = instructions (experiments (qs ! c) ! e) ! i"
    by (simp add: instr_patched_def)
  with c e i show ?thesis by simp
qed

text \<open>
  Claim C10. \<open>load_qobj_from_cache\<close> never changes a cached instruction named
  \<open>snapshot\<close>, whatever \<open>naughty_mode\<close> is and whether the call succeeds or raises: every
  such instruction of the cache (as it is in memory, or as it is loaded from the cache
  file by this call) is at the same position and has the same value, parameters included,
  after the call; and where the call hands out a job, the instruction is the same in that
  job.
\<close>

theorem load_skips_snapshot:
  assumes "load_qobj_from_cache circuits chunk s = (r, s')"
    and "qobjs (snd (try_loading_cache_from_file s)) = Some qs"
    and "c < length qs" and "e < length (experiments (qs ! c))"
    and "i < length (instructions (experiments (qs ! c) ! e))"
    and "instr_name (instructions (experiments (qs ! c) ! e) ! i) = ''snapshot''"
  shows "\<exists>qs'. qobjs s' = Some qs' \<and> c < length qs' \<and> e < length (experiments (qs' ! c))
      \<and> i < length (instructions (experiments (qs' ! c) ! e))
      \<and> instructions (experiments (qs' ! c) ! e) ! i = instructions (experiments (qs ! c) ! e) ! i
      \<and> (\<forall>job. r = Inr job \<longrightarrow> c = chunk \<longrightarrow> e < length circuits \<longrightarrow>
            instructions (experiments job ! e) ! i = instructions (experiments (qs ! c) ! e) ! i)"
proof -
  from load_after_file [OF assms(1,2)] obtain qs' where
    f: "qobjs s' = Some qs'" "cache_patched chunk qs qs'"
    and j: "\<And>job. r = Inr job \<Longrightarrow> experiments job = take (length circuits) (experiments (qs' ! chunk))"
    by blast
  note k = snapshot_kept [OF f(2) assms(3-6)]
  have "instructions (experiments job ! e) ! i = instructions (experiments (qs ! c) ! e) ! i"
    if "r = Inr job" "c = chunk" "e < length circuits" for job
    using j [OF that(1)] that(2,3) k by simp
  with f(1) k show ?thesis by blast
qed

lemma snapshot_cache_eval:
  "qobjs snapshot_cache = Some [\<lparr>qobj_id = ''job'', experiments =
      [\<lparr>header = \<lparr>header_name = ''c'', compiled_circuit_qasm = None\<rparr>,
        instructions = [instr ''u1'' [0] [0], instr ''snapshot'' [0] [7]]\<rparr>]\<rparr>]
   \<and> mappings snapshot_cache = Some [[[0, 1]]]
   \<and> misses snapshot_cache = Some 0 \<and> cache_file snapshot_cache = None
   \<and> try_reusing_qobjs snapshot_cache \<and> \<not> naughty_mode snapshot_cache"
  unfolding snapshot_cache_def
  by (simp add: snapshot_circuit_def snapshot_qobj_def example_defs eval_defs)



lemma snapshot_cache_facts:
  assumes "s = snapshot_cache \<or> s = naughty_snapshot_cache"
  shows "qobjs (snd (try_loading_cache_from_file s)) = Some (chunks snapshot_cache)"
    and "(0::nat) < length (chunks snapshot_cache)"
    and "(0::nat) < length (experiments (chunks snapshot_cache ! 0))"
    and "(1::nat) < length (instructions (experiments (chunks snapshot_cache ! 0) ! 0))"
    and "instr_name (instructions (experiments (chunks snapshot_cache ! 0) ! 0) ! 1) = ''snapshot''"
    and "instructions (experiments (chunks snapshot_cache ! 0) ! 0) ! 1 = instr ''snapshot'' [0] [7]"
  using assms snapshot_cache_eval
  by (auto simp: try_loading_cache_from_file_def chunks_def naughty_snapshot_cache_def instr_def)

text \<open>
  The theorem at the cached job \<open>u1 q[0]; snapshot\<close>, loaded in safe mode and in naughty
  mode: the \<open>snapshot\<close> keeps its parameter \<open>7\<close>, while the circuit's \<open>snapshot\<close> gate
  carries \<open>3\<close>.
\<close>

theorem load_skips_snapshot_witness:
  "(\<exists>qs'. qobjs (snd (load_qobj_from_cache [snapshot_circuit] 0 snapshot_cache)) = Some qs'
      \<and> instructions (experiments (qs' ! 0) ! 0) ! 1 = instr ''snapshot'' [0] [7])
   \<and> (\<exists>qs'. qobjs (snd (load_qobj_from_cache [snapshot_circuit] 0 naughty_snapshot_cache)) = Some qs'
      \<and> instructions (experiments (qs' ! 0) ! 0) ! 1 = instr ''snapshot'' [0] [7])
   \<and> \<not> naughty_mode snapshot_cache \<and> naughty_mode naughty_snapshot_cache
   \<and> qobjs (snd (try_loading_cache_from_file snapshot_cache)) = Some (chunks snapshot_cache)
   \<and> qobjs (snd (try_loading_cache_from_file naughty_snapshot_cache)) = Some (chunks snapshot_cache)
   \<and> (0::nat) < length (chunks snapshot_cache)
   \<and> (0::nat) < length (experiments (chunks snapshot_cache ! 0))
   \<and> (1::nat) < length (instructions (experiments (chunks snapshot_cache ! 0) ! 0))
   \<and> instr_name (instructions (experiments (chunks snapshot_cache ! 0) ! 0) ! 1) = ''snapshot''"
proof -
  have c: "load_qobj_from_cache [snapshot_circuit] 0 s
      = (fst (load_qobj_from_cache [snapshot_circuit] 0 s), snd (load_qobj_from_cache [snapshot_circuit] 0 s))"
    for s by simp
  note a = snapshot_cache_facts [OF disjI1 [OF refl]]
  note b = snapshot_cache_facts [OF disjI2 [OF refl]]
  from load_skips_snapshot [OF c a(1-5)] a(6)
  have 1: "\<exists>qs'. qobjs (snd (load_qobj_from_cache [snapshot_circuit] 0 snapshot_cache)) = Some qs'
      \<and> instructions (experiments (qs' ! 0) ! 0) ! 1 = instr ''snapshot'' [0] [7]"
    by auto
  from load_skips_snapshot [OF c b(1-5)] b(6)
  have 2: "\<exists>qs'. qobjs (snd (load_qobj_from_cache [snapshot_circuit] 0 naughty_snapshot_cache)) = Some qs'
      \<and> instructions (experiments (qs' ! 0) ! 0) ! 1 = instr ''snapshot'' [0] [7]"
    by auto
  have m: "\<not> naughty_mode snapshot_cache \<and> naughty_mode naughty_snapshot_cache"
    using snapshot_cache_eval by (simp add: naughty_snapshot_cache_def)
  from 1 2 m a(1-5) b(1) show ?thesis by blast
qed

subsection \<open>A parameter count that does not match\<close>

lemma arity_cache_eval:
  "qobjs arity_cache = Some [\<lparr>qobj_id = ''job'', experiments =
      [\<lparr>header = \<lparr>header_name = ''c'', compiled_circuit_qasm = None\<rparr>,
        instructions = [instr ''u1'' [0] [0], instr ''u2'' [1] [0]]\<rparr>]\<rparr>]
   \<and> mappings arity_cache = Some [[[0, 1]]]
   \<and> misses arity_cache = Some 0 \<and> cache_file arity_cache = None
   \<and> try_reusing_qobjs arity_cache \<and> \<not> naughty_mode arity_cache"
  unfolding arity_cache_def
  by (simp add: arity_circuit_def arity_qobj_def example_defs eval_defs)

lemma arity_load_eval:
  "fst (load_qobj_from_cache [arity_circuit] 0 arity_cache) = Inl (AquaError 1 ''u2'' 2 1 ''u2'' 1)
   \<and> qobjs (snd (load_qobj_from_cache [arity_circuit] 0 arity_cache))
     = Some [\<lparr>qobj_id = ''job'', experiments =
        [\<lparr>header = \<lparr>header_name = ''c'', compiled_circuit_qasm = None\<rparr>,
          instructions = [instr ''u1'' [0] [1 / 2], instr ''u2'' [1] [0]]\<rparr>]\<rparr>]"
  using arity_cache_eval
  by (simp add: load_defs arity_circuit_def gate_on_def circuit_of_def instr_def q_reg_def)

lemma naughty_arity_cache_eval:
  "qobjs naughty_arity_cache = qobjs arity_cache \<and> mappings naughty_arity_cache = mappings arity_cache
   \<and> naughty_mode naughty_arity_cache \<and> chunks naughty_arity_cache = chunks arity_cache"
  by (simp add: naughty_arity_cache_def chunks_def)

lemma naughty_arity_cache_qobjs:
  "qobjs naughty_arity_cache = Some [\<lparr>qobj_id = ''job'', experiments =
      [\<lparr>header = \<lparr>header_name = ''c'', compiled_circuit_qasm = None\<rparr>,
        instructions = [instr ''u1'' [0] [0], instr ''u2'' [1] [0]]\<rparr>]\<rparr>]
   \<and> mappings naughty_arity_cache = Some [[[0, 1]]]
   \<and> misses naughty_arity_cache = Some 0 \<and> cache_file naughty_arity_cache = None
   \<and> try_reusing_qobjs naughty_arity_cache \<and> naughty_mode naughty_arity_cache"
  using arity_cache_eval by (simp add: naughty_arity_cache_def)

lemma naughty_arity_load_eval:
  "load_qobj_from_cache [arity_circuit] 0 naughty_arity_cache
     = (Inl (AquaError 1 ''u2'' 2 1 ''u2'' 1),
        naughty_arity_cache\<lparr>qobjs := Some [\<lparr>qobj_id = ''job'', experiments =
          [\<lparr>header = \<lparr>header_name = ''c'', compiled_circuit_qasm = None\<rparr>,
            instructions = [instr ''u1'' [0] [1 / 2], instr ''u2'' [1] [0]]\<rparr>]\<rparr>]\<rparr>)"
  using naughty_arity_cache_qobjs
  by (simp add: load_defs arity_circuit_def gate_on_def circuit_of_def instr_def q_reg_def)

lemma arity_chunk_load_eval:
  "load_qobj_from_cache [arity_circuit] 1 arity_cache
     = (Inl (AquaError 1 ''u2'' 2 1 ''u2'' 1),
        arity_cache\<lparr>mappings := Some [[[0, 1]], [[0, 1]]],
          qobjs := Some [\<lparr>qobj_id = ''job'', experiments =
          [\<lparr>header = \<lparr>header_name = ''c'', compiled_circuit_qasm = None\<rparr>,
            instructions = [instr ''u1'' [0] [0], instr ''u2'' [1] [0]]\<rparr>]\<rparr>,
          \<lparr>qobj_id = ''job'', experiments =
          [\<lparr>header = \<lparr>header_name = ''c'', compiled_circuit_qasm = None\<rparr>,
            instructions = [instr ''u1'' [0] [1 / 2], instr ''u2'' [1] [0]]\<rparr>]\<rparr>]\<rparr>)"
  using arity_cache_eval
  by (simp add: load_defs arity_circuit_def gate_on_def circuit_of_def instr_def q_reg_def)

lemma arity_slot_load_eval:
  "load_qobj_from_cache [matching_circuit, arity_circuit] 0 arity_cache
     = (Inl (AquaError 1 ''u2'' 2 1 ''u2'' 1),
        arity_cache\<lparr>qobjs := Some [\<lparr>qobj_id = ''job'', experiments =
          [\<lparr>header = \<lparr>header_name = ''c'', compiled_circuit_qasm = None\<rparr>,
            instructions = [instr ''u1'' [0] [1 / 2], instr ''u2'' [1] [1 / 4]]\<rparr>,
           \<lparr>header = \<lparr>header_name = ''c'', compiled_circuit_qasm = None\<rparr>,
            instructions = [instr ''u1'' [0] [1 / 2], instr ''u2'' [1] [1 / 4]]\<rparr>]\<rparr>],
          mappings := Some [[[0, 1], [0, 1]]]\<rparr>)"
  using arity_cache_eval
  by (simp add: load_defs arity_circuit_def matching_circuit_def gate_on_def circuit_of_def
        instr_def q_reg_def)

text \<open>
  Claim C8, as stated: a parameter count that differs between a compiled instruction and
  its gate raises an error, the patch is aborted, and in safe mode no partial patch is
  left to be seen. In safe mode, with the cached job \<open>u1 q[0]; u2 q[1]\<close> whose \<open>u2\<close> has
  one parameter, loading a circuit whose \<open>u2\<close> has two raises the \<open>AquaError\<close>, and the
  cached \<open>u1\<close>, rewritten before the mismatch was met, keeps the circuit's parameter
  \<open>1/2\<close> in place of \<open>0\<close>: the cached job is left half rewritten.
\<close>

theorem load_arity_mismatch_counterexample:
  "\<not> naughty_mode arity_cache
   \<and> fst (load_qobj_from_cache [arity_circuit] 0 arity_cache) = Inl (AquaError 1 ''u2'' 2 1 ''u2'' 1)
   \<and> params (instructions (experiments (chunks arity_cache ! 0) ! 0) ! 0) = Some [0]
   \<and> params (instructions (experiments
        (chunks (snd (load_qobj_from_cache [arity_circuit] 0 arity_cache)) ! 0) ! 0) ! 0) = Some [1 / 2]
   \<and> qobjs (snd (load_qobj_from_cache [arity_circuit] 0 arity_cache)) \<noteq> qobjs arity_cache"
  using arity_cache_eval arity_load_eval by (simp add: chunks_def instr_def)

text \<open>
  Claim C8, amended. Whenever a cached instruction of a loaded circuit that is not a
  \<open>snapshot\<close> has a parameter count other than that of the gate it is mapped to,
  \<open>load_qobj_from_cache\<close> raises an error and hands out no job, and the patch is not
  undone, in safe mode as in naughty mode (nothing is assumed of \<open>naughty_mode\<close>): the
  loop raised at some instruction at or before the one with the other count, and the cache
  holds the names and the parameters of the circuits at every instruction the loop passed
  before it raised. The three parts are the three ways in which the loop comes by the
  experiment it patches for circuit \<open>n\<close>: the experiment is cached in the chunk; the
  chunk is the first one not cached and the call copies chunk 0 and its mappings into it;
  the chunk is 0 with a mapping for each of its experiments, the experiment is beyond the
  cached ones and the call copies experiment 0 and its mapping into it. A patch that
  succeeds keeps every parameter count, so in the last part the count compared is that of
  the cached instruction of experiment 0.
\<close>

theorem load_arity_mismatch_raises:
  "(qobjs s = Some qs \<and> chunk < length qs \<and> n < length circuits
      \<and> n < length (experiments (qs ! chunk))
      \<and> g < length (instructions (experiments (qs ! chunk) ! n))
      \<and> instr_name (instructions (experiments (qs ! chunk) ! n) ! g) \<noteq> ''snapshot''
      \<and> mapping_at (mappings s) chunk n g = Inr idx
      \<and> idx < length (raw_gates (circuits ! n))
      \<and> params_len (instructions (experiments (qs ! chunk) ! n) ! g)
           \<noteq> length (param (raw_gates (circuits ! n) ! idx))
    \<longrightarrow> (\<exists>e. fst (load_qobj_from_cache circuits chunk s) = Inl e)
        \<and> partial_patch circuits chunk n g (snd (load_qobj_from_cache circuits chunk s)))
   \<and> (try_reusing_qobjs s \<and> qobjs s = Some qs \<and> mappings s = Some ms \<and> qs \<noteq> [] \<and> ms \<noteq> []
      \<and> chunk = length qs \<and> chunk \<le> length ms \<and> n < length circuits
      \<and> n < length (experiments (qs ! 0))
      \<and> g < length (instructions (experiments (qs ! 0) ! n))
      \<and> instr_name (instructions (experiments (qs ! 0) ! n) ! g) \<noteq> ''snapshot''
      \<and> mapping_at (mappings s) 0 n g = Inr idx
      \<and> idx < length (raw_gates (circuits ! n))
      \<and> params_len (instructions (experiments (qs ! 0) ! n) ! g)
           \<noteq> length (param (raw_gates (circuits ! n) ! idx))
    \<longrightarrow> (\<exists>e. fst (load_qobj_from_cache circuits chunk s) = Inl e)
        \<and> partial_patch circuits chunk n g (snd (load_qobj_from_cache circuits chunk s)))
   \<and> (try_reusing_qobjs s \<and> qobjs s = Some qs \<and> mappings s = Some ms \<and> qs \<noteq> [] \<and> ms \<noteq> []
      \<and> experiments (qs ! 0) \<noteq> [] \<and> length (experiments (qs ! 0)) \<le> length (ms ! 0)
      \<and> length (experiments (qs ! 0)) \<le> n \<and> n < length circuits
      \<and> g < length (instructions (experiments (qs ! 0) ! 0))
      \<and> instr_name (instructions (experiments (qs ! 0) ! 0) ! g) \<noteq> ''snapshot''
      \<and> mapping_at (mappings s) 0 0 g = Inr idx
      \<and> idx < length (raw_gates (circuits ! n))
      \<and> params_len (instructions (experiments (qs ! 0) ! 0) ! g)
           \<noteq> length (param (raw_gates (circuits ! n) ! idx))
    \<longrightarrow> (\<exists>e. fst (load_qobj_from_cache circuits 0 s) = Inl e)
        \<and> partial_patch circuits 0 n g (snd (load_qobj_from_cache circuits 0 s)))"
proof (intro conjI impI)
  assume a: "qobjs s = Some qs \<and> chunk < length qs \<and> n < length circuits
      \<and> n < length (experiments (qs ! chunk))
      \<and> g < length (instructions (experiments (qs ! chunk) ! n))
      \<and> instr_name (instructions (experiments (qs ! chunk) ! n) ! g) \<noteq> ''snapshot''
      \<and> mapping_at (mappings s) chunk n g = Inr idx
      \<and> idx < length (raw_gates (circuits ! n))
      \<and> params_len (instructions (experiments (qs ! chunk) ! n) ! g)
           \<noteq> length (param (raw_gates (circuits ! n) ! idx))"
  then have r: "(\<exists>e. fst (load_qobj_from_cache circuits chunk s) = Inl e)
     \<and> partial_patch circuits chunk n g (snd (load_qobj_from_cache circuits chunk s))"
    by (intro load_raises_cached [where qs = qs and idx = idx]) auto
  from r show "\<exists>e. fst (load_qobj_from_cache circuits chunk s) = Inl e" ..
  from r show "partial_patch circuits chunk n g (snd (load_qobj_from_cache circuits chunk s))" ..
next
  assume a: "try_reusing_qobjs s \<and> qobjs s = Some qs \<and> mappings s = Some ms \<and> qs \<noteq> [] \<and> ms \<noteq> []
      \<and> chunk = length qs \<and> chunk \<le> length ms \<and> n < length circuits
      \<and> n < length (experiments (qs ! 0))
      \<and> g < length (instructions (experiments (qs ! 0) ! n))
      \<and> instr_name (instructions (experiments (qs ! 0) ! n) ! g) \<noteq> ''snapshot''
      \<and> mapping_at (mappings s) 0 n g = Inr idx
      \<and> idx < length (raw_gates (circuits ! n))
      \<and> params_len (instructions (experiments (qs ! 0) ! n) ! g)
           \<noteq> length (param (raw_gates (circuits ! n) ! idx))"
  then have r: "(\<exists>e. fst (load_qobj_from_cache circuits chunk s) = Inl e)
     \<and> partial_patch circuits chunk n g (snd (load_qobj_from_cache circuits chunk s))"
    by (intro load_raises_reused_chunk [where qs = qs and ms = ms and idx = idx]) auto
  from r show "\<exists>e. fst (load_qobj_from_cache circuits chunk s) = Inl e" ..
  from r show "partial_patch circuits chunk n g (snd (load_qobj_from_cache circuits chunk s))" ..
next
  assume a: "try_reusing_qobjs s \<and> qobjs s = Some qs \<and> mappings s = Some ms \<and> qs \<noteq> [] \<and> ms \<noteq> []
      \<and> experiments (qs ! 0) \<noteq> [] \<and> length (experiments (qs ! 0)) \<le> length (ms ! 0)
      \<and> length (experiments (qs ! 0)) \<le> n \<and> n < length circuits
      \<and> g < length (instructions (experiments (qs ! 0) ! 0))
      \<and> instr_name (instructions (experiments (qs ! 0) ! 0) ! g) \<noteq> ''snapshot''
      \<and> mapping_at (mappings s) 0 0 g = Inr idx
      \<and> idx < length (raw_gates (circuits ! n))
      \<and> params_len (instructions (experiments (qs ! 0) ! 0) ! g)
           \<noteq> length (param (raw_gates (circuits ! n) ! idx))"
  then have r: "(\<exists>e. fst (load_qobj_from_cache circuits 0 s) = Inl e)
     \<and> partial_patch circuits 0 n g (snd (load_qobj_from_cache circuits 0 s))"
    by (intro load_raises_reused_experiment [where qs = qs and ms = ms and idx = idx]) auto
  from r show "\<exists>e. fst (load_qobj_from_cache circuits 0 s) = Inl e" ..
  from r show "partial_patch circuits 0 n g (snd (load_qobj_from_cache circuits 0 s))" ..
qed

text \<open>
  The theorem at the cached job \<open>u1 q[0]; u2 q[1]\<close> and its second instruction: loaded
  as it is cached, in naughty mode; loaded for chunk 1, in safe mode; and loaded as the
  second of two circuits. Each time the \<open>u1\<close> that the loop passed before the error
  keeps the parameter \<open>1/2\<close> of the circuit.
\<close>

theorem load_arity_mismatch_raises_witness:
  "(qobjs naughty_arity_cache = Some (chunks arity_cache) \<and> (0::nat) < length (chunks arity_cache)
      \<and> (0::nat) < length [arity_circuit]
      \<and> (0::nat) < length (experiments (chunks arity_cache ! 0))
      \<and> (1::nat) < length (instructions (experiments (chunks arity_cache ! 0) ! 0))
      \<and> instr_name (instructions (experiments (chunks arity_cache ! 0) ! 0) ! 1) \<noteq> ''snapshot''
      \<and> mapping_at (mappings naughty_arity_cache) 0 0 1 = Inr 1
      \<and> (1::nat) < length (raw_gates ([arity_circuit] ! 0))
      \<and> params_len (instructions (experiments (chunks arity_cache ! 0) ! 0) ! 1)
           \<noteq> length (param (raw_gates ([arity_circuit] ! 0) ! 1)))
   \<and> naughty_mode naughty_arity_cache
   \<and> (\<exists>e. fst (load_qobj_from_cache [arity_circuit] 0 naughty_arity_cache) = Inl e)
   \<and> partial_patch [arity_circuit] 0 0 1 (snd (load_qobj_from_cache [arity_circuit] 0 naughty_arity_cache))
   \<and> (try_reusing_qobjs arity_cache \<and> qobjs arity_cache = Some (chunks arity_cache)
      \<and> mappings arity_cache = Some [[[0, 1]]] \<and> chunks arity_cache \<noteq> [] \<and> [[[0::nat, 1]]] \<noteq> []
      \<and> (1::nat) = length (chunks arity_cache) \<and> (1::nat) \<le> length [[[0::nat, 1]]]
      \<and> (0::nat) < length [arity_circuit]
      \<and> (0::nat) < length (experiments (chunks arity_cache ! 0))
      \<and> (1::nat) < length (instructions (experiments (chunks arity_cache ! 0) ! 0))
      \<and> instr_name (instructions (experiments (chunks arity_cache ! 0) ! 0) ! 1) \<noteq> ''snapshot''
      \<and> mapping_at (mappings arity_cache) 0 0 1 = Inr 1
      \<and> (1::nat) < length (raw_gates ([arity_circuit] ! 0))
      \<and> params_len (instructions (experiments (chunks arity_cache ! 0) ! 0) ! 1)
           \<noteq> length (param (raw_gates ([arity_circuit] ! 0) ! 1)))
   \<and> \<not> naughty_mode arity_cache
   \<and> (\<exists>e. fst (load_qobj_from_cache [arity_circuit] 1 arity_cache) = Inl e)
   \<and> partial_patch [arity_circuit] 1 0 1 (snd (load_qobj_from_cache [arity_circuit] 1 arity_cache))
   \<and> (try_reusing_qobjs arity_cache \<and> qobjs arity_cache = Some (chunks arity_cache)
      \<and> mappings arity_cache = Some [[[0, 1]]] \<and> chunks arity_cache \<noteq> [] \<and> [[[0::nat, 1]]] \<noteq> []
      \<and> experiments (chunks arity_cache ! 0) \<noteq> []
      \<and> length (experiments (chunks arity_cache ! 0)) \<le> length ([[[0::nat, 1]]] ! 0)
      \<and> length (experiments (chunks arity_cache ! 0)) \<le> 1
      \<and> (1::nat) < length [matching_circuit, arity_circuit]
      \<and> (1::nat) < length (instructions (experiments (chunks arity_cache ! 0) ! 0))
      \<and> instr_name (instructions (experiments (chunks arity_cache ! 0) ! 0) ! 1) \<noteq> ''snapshot''
      \<and> mapping_at (mappings arity_cache) 0 0 1 = Inr 1
      \<and> (1::nat) < length (raw_gates ([matching_circuit, arity_circuit] ! 1))
      \<and> params_len (instructions (experiments (chunks arity_cache ! 0) ! 0) ! 1)
           \<noteq> length (param (raw_gates ([matching_circuit, arity_circuit] ! 1) ! 1)))
   \<and> (\<exists>e. fst (load_qobj_from_cache [matching_circuit, arity_circuit] 0 arity_cache) = Inl e)
   \<and> partial_patch [matching_circuit, arity_circuit] 0 1 1
        (snd (load_qobj_from_cache [matching_circuit, arity_circuit] 0 arity_cache))
   \<and> params (instructions (slot (snd (load_qobj_from_cache [arity_circuit] 0 naughty_arity_cache)) 0 0) ! 0)
       = Some [1 / 2]
   \<and> params (instructions (slot (snd (load_qobj_from_cache [arity_circuit] 1 arity_cache)) 1 0) ! 0)
       = Some [1 / 2]
   \<and> params (instructions
         (slot (snd (load_qobj_from_cache [matching_circuit, arity_circuit] 0 arity_cache)) 0 1) ! 0)
       = Some [1 / 2]"
proof -
  have a: "qobjs naughty_arity_cache = Some (chunks arity_cache) \<and> (0::nat) < length (chunks arity_cache)
      \<and> (0::nat) < length [arity_circuit]
      \<and> (0::nat) < length (experiments (chunks arity_cache ! 0))
      \<and> (1::nat) < length (instructions (experiments (chunks arity_cache ! 0) ! 0))
      \<and> instr_name (instructions (experiments (chunks arity_cache ! 0) ! 0) ! 1) \<noteq> ''snapshot''
      \<and> mapping_at (mappings naughty_arity_cache) 0 0 1 = Inr 1
      \<and> (1::nat) < length (raw_gates ([arity_circuit] ! 0))
      \<and> params_len (instructions (experiments (chunks arity_cache ! 0) ! 0) ! 1)
           \<noteq> length (param (raw_gates ([arity_circuit] ! 0) ! 1))"
    using arity_cache_eval naughty_arity_cache_eval
    by (simp add: chunks_def mapping_at_def params_len_def raw_gates_def arity_circuit_def
          gate_on_def circuit_of_def instr_def)
  have b: "try_reusing_qobjs arity_cache \<and> qobjs arity_cache = Some (chunks arity_cache)
      \<and> mappings arity_cache = Some [[[0, 1]]] \<and> chunks arity_cache \<noteq> [] \<and> [[[0::nat, 1]]] \<noteq> []
      \<and> (1::nat) = length (chunks arity_cache) \<and> (1::nat) \<le> length [[[0::nat, 1]]]
      \<and> (0::nat) < length [arity_circuit]
      \<and> (0::nat) < length (experiments (chunks arity_cache ! 0))
      \<and> (1::nat) < length (instructions (experiments (chunks arity_cache ! 0) ! 0))
      \<and> instr_name (instructions (experiments (chunks arity_cache ! 0) ! 0) ! 1) \<noteq> ''snapshot''
      \<and> mapping_at (mappings arity_cache) 0 0 1 = Inr 1
      \<and> (1::nat) < length (raw_gates ([arity_circuit] ! 0))
      \<and> params_len (instructions (experiments (chunks arity_cache ! 0) ! 0) ! 1)
           \<noteq> length (param (raw_gates ([arity_circuit] ! 0) ! 1))"
    using arity_cache_eval
    by (simp add: chunks_def mapping_at_def params_len_def raw_gates_def arity_circuit_def
          gate_on_def circuit_of_def instr_def)
  have c: "try_reusing_qobjs arity_cache \<and> qobjs arity_cache = Some (chunks arity_cache)
      \<and> mappings arity_cache = Some [[[0, 1]]] \<and> chunks arity_cache \<noteq> [] \<and> [[[0::nat, 1]]] \<noteq> []
      \<and> experiments (chunks arity_cache ! 0) \<noteq> []
      \<and> length (experiments (chunks arity_cache ! 0)) \<le> length ([[[0::nat, 1]]] ! 0)
      \<and> length (experiments (chunks arity_cache ! 0)) \<le> 1
      \<and> (1::nat) < length [matching_circuit, arity_circuit]
      \<and> (1::nat) < length (instructions (experiments (chunks arity_cache ! 0) ! 0))
      \<and> instr_name (instructions (experiments (chunks arity_cache ! 0) ! 0) ! 1) \<noteq> ''snapshot''
      \<and> mapping_at (mappings arity_cache) 0 0 1 = Inr 1
      \<and> (1::nat) < length (raw_gates ([matching_circuit, arity_circuit] ! 1))
      \<and> params_len (instructions (experiments (chunks arity_cache ! 0) ! 0) ! 1)
           \<noteq> length (param (raw_gates ([matching_circuit, arity_circuit] ! 1) ! 1))"
    using arity_cache_eval
    by (simp add: chunks_def mapping_at_def params_len_def raw_gates_def arity_circuit_def
          gate_on_def circuit_of_def instr_def)
  have m: "naughty_mode naughty_arity_cache" "\<not> naughty_mode arity_cache"
    using arity_cache_eval naughty_arity_cache_eval by simp_all
  note t1 = load_arity_mismatch_raises [where s = naughty_arity_cache and qs = "chunks arity_cache"
      and chunk = 0 and n = 0 and circuits = "[arity_circuit]" and g = 1 and idx = 1,
      THEN conjunct1, rule_format, OF a]
  note t2 = load_arity_mismatch_raises [where s = arity_cache and qs = "chunks arity_cache"
      and ms = "[[[0, 1]]]" and chunk = 1 and n = 0 and circuits = "[arity_circuit]" and g = 1
      and idx = 1, THEN conjunct2, THEN conjunct1, rule_format, OF b]
  note t3 = load_arity_mismatch_raises [where s = arity_cache and qs = "chunks arity_cache"
      and ms = "[[[0, 1]]]" and n = 1 and circuits = "[matching_circuit, arity_circuit]" and g = 1
      and idx = 1, THEN conjunct2, THEN conjunct2, rule_format, OF c]
  have v: "params (instructions (slot (snd (load_qobj_from_cache [arity_circuit] 0 naughty_arity_cache)) 0 0) ! 0)
       = Some [1 / 2]"
    "params (instructions (slot (snd (load_qobj_from_cache [arity_circuit] 1 arity_cache)) 1 0) ! 0)
       = Some [1 / 2]"
    "params (instructions
         (slot (snd (load_qobj_from_cache [matching_circuit, arity_circuit] 0 arity_cache)) 0 1) ! 0)
       = Some [1 / 2]"
    using naughty_arity_load_eval arity_chunk_load_eval arity_slot_load_eval
    by (simp_all add: slot_def chunks_def instr_def)
  from a b c m t1 t2 t3 v show ?thesis by (intro conjI) (elim conjE, assumption)+
qed

subsection \<open>Filling a missing chunk or experiment from the first one\<close>










end
